theory Spec2Isabelle
  imports Main "HOL-Library.Monad_Syntax" "HOL-Library.Sublist"
begin

section \<open>Vectors, integers and loops\<close>

text \<open>
  The program stores every vector in a \<^verbatim>\<open>std::vector\<close> and reads and writes it with
  \<^verbatim>\<open>operator[]\<close>, which has no defined result outside the vector. The embedding makes this
  explicit: an access returns \<open>None\<close> when the index is not below the length, and every
  method that indexes a vector returns an \<open>option\<close>, \<open>None\<close> standing for a run that leaves
  the defined behaviour of the program (or, for the constructors of vectors, throws
  \<^verbatim>\<open>std::length_error\<close>).
\<close>

definition vget :: "'a list \<Rightarrow> nat \<Rightarrow> 'a option" where
  "vget v i = (if i < length v then Some (v ! i) else None)"

definition vset :: "'a list \<Rightarrow> nat \<Rightarrow> 'a \<Rightarrow> 'a list option" where
  "vset v i x = (if i < length v then Some (v[i := x]) else None)"

text \<open>\<open>m[i][j]\<close> as a read and as a write.\<close>

definition mat_get :: "'a list list \<Rightarrow> nat \<Rightarrow> nat \<Rightarrow> 'a option" where
  "mat_get m i j = do { row \<leftarrow> vget m i; vget row j }"

definition mat_set :: "'a list list \<Rightarrow> nat \<Rightarrow> nat \<Rightarrow> 'a \<Rightarrow> 'a list list option" where
  "mat_set m i j x = do { row \<leftarrow> vget m i; row' \<leftarrow> vset row j x; vset m i row' }"

text \<open>
  Entries are C++ \<^verbatim>\<open>int\<close>s of 32 bits. Every sum and difference that the program forms
  is stored in an \<^verbatim>\<open>int\<close>; no method checks its range. The embedding writes the
  wrap-around out: the result of an addition or subtraction is the two's complement value
  of 32 bits, \<open>wrap_int\<close> of the mathematical result. (The C++ standard leaves the overflow of
  \<^verbatim>\<open>int\<close> undefined; the wrap-around is what the compiled program computes.) Comparisons
  read the values as they are.
\<close>

definition INT_MAX :: int where "INT_MAX = 2147483647"

definition INT_MIN :: int where "INT_MIN = - 2147483648"

definition wrap_int :: "int \<Rightarrow> int" where
  "wrap_int x = (x - INT_MIN) mod 2 ^ 32 + INT_MIN"

text \<open>
  \<^verbatim>\<open>for (int i = 0; i < n; ++i) body\<close> runs the body on the indices \<open>[0..<nat n]\<close> in
  ascending order (on no index when \<open>n \<le> 0\<close>) and stops at the first body that fails.
\<close>

fun for_each :: "nat list \<Rightarrow> (nat \<Rightarrow> 'a \<Rightarrow> 'a option) \<Rightarrow> 'a \<Rightarrow> 'a option" where
  "for_each [] body a = Some a"
| "for_each (k # ks) body a = (case body k a of None \<Rightarrow> None | Some a' \<Rightarrow> for_each ks body a')"

section \<open>The class BankersAlgorithm\<close>

record bankers =
  numProcesses :: int
  numResources :: int
  allocation :: "int list list"
  maxm :: "int list list"
  need :: "int list list"
  available :: "int list"

text \<open>
  The constructor. \<^verbatim>\<open>resize\<close> and the vector constructor take their size as an unsigned
  number, so a negative dimension asks for more than \<^verbatim>\<open>max_size()\<close> elements and throws
  (\<open>None\<close>). Memory is not bounded in the embedding: no allocation fails for its size.
\<close>

definition BankersAlgorithm :: "int \<Rightarrow> int \<Rightarrow> bankers option" where
  "BankersAlgorithm processes resources =
     (if processes < 0 \<or> resources < 0 then None
      else Some \<lparr> numProcesses = processes, numResources = resources,
                  allocation = replicate (nat processes) (replicate (nat resources) 0),
                  maxm = replicate (nat processes) (replicate (nat resources) 0),
                  need = replicate (nat processes) (replicate (nat resources) 0),
                  available = replicate (nat resources) 0 \<rparr>)"

definition setAvailable :: "bankers \<Rightarrow> int list \<Rightarrow> bankers" where
  "setAvailable s av =
     (if int (length av) \<noteq> numResources s then s else s\<lparr>available := av\<rparr>)"

definition setMaxRow :: "bankers \<Rightarrow> int \<Rightarrow> int list \<Rightarrow> bankers option" where
  "setMaxRow s pid row =
     (if pid < 0 \<or> pid \<ge> numProcesses s then Some s
      else if int (length row) \<noteq> numResources s then Some s
      else do { m \<leftarrow> vset (maxm s) (nat pid) row; Some (s\<lparr>maxm := m\<rparr>) })"

definition setAllocationRow :: "bankers \<Rightarrow> int \<Rightarrow> int list \<Rightarrow> bankers option" where
  "setAllocationRow s pid row =
     (if pid < 0 \<or> pid \<ge> numProcesses s then Some s
      else if int (length row) \<noteq> numResources s then Some s
      else do { m \<leftarrow> vset (allocation s) (nat pid) row; Some (s\<lparr>allocation := m\<rparr>) })"

subsection \<open>computeNeed\<close>

text \<open>The body of the inner loop: the difference is stored, read back and clamped.\<close>

definition computeNeed_cell :: "nat \<Rightarrow> nat \<Rightarrow> bankers \<Rightarrow> bankers option" where
  "computeNeed_cell i j s = do {
     m \<leftarrow> mat_get (maxm s) i j;
     a \<leftarrow> mat_get (allocation s) i j;
     nd \<leftarrow> mat_set (need s) i j (wrap_int (m - a));
     n \<leftarrow> mat_get nd i j;
     if n < 0 then do { nd' \<leftarrow> mat_set nd i j 0; Some (s\<lparr>need := nd'\<rparr>) }
     else Some (s\<lparr>need := nd\<rparr>)
   }"

definition computeNeed :: "bankers \<Rightarrow> bankers option" where
  "computeNeed s =
     for_each [0..<nat (numProcesses s)]
       (\<lambda>i. for_each [0..<nat (numResources s)] (\<lambda>j. computeNeed_cell i j)) s"

subsection \<open>isSafe\<close>

text \<open>
  The innermost loop of the scan: is the need row of process \<open>i\<close> covered by \<open>work\<close>?
  It leaves at the first resource that is not.
\<close>

fun need_fits :: "bankers \<Rightarrow> nat \<Rightarrow> int list \<Rightarrow> nat list \<Rightarrow> bool option" where
  "need_fits s i work [] = Some True"
| "need_fits s i work (j # js) = do {
     n \<leftarrow> mat_get (need s) i j;
     w \<leftarrow> vget work j;
     if n > w then Some False else need_fits s i work js
   }"

text \<open>\<^verbatim>\<open>work[j] += allocation[i][j]\<close>\<close>

definition release :: "bankers \<Rightarrow> nat \<Rightarrow> nat \<Rightarrow> int list \<Rightarrow> int list option" where
  "release s i j work = do {
     w \<leftarrow> vget work j;
     a \<leftarrow> mat_get (allocation s) i j;
     vset work j (wrap_int (w + a))
   }"

text \<open>
  The body of the scan over the processes, on the triple of the local variables
  \<open>work\<close>, \<open>finish\<close> and \<open>progressed\<close>.
\<close>

definition scan_process ::
  "bankers \<Rightarrow> nat \<Rightarrow> int list \<times> bool list \<times> bool \<Rightarrow> (int list \<times> bool list \<times> bool) option" where
  "scan_process s i = (\<lambda>(work, finish, progressed). do {
     f \<leftarrow> vget finish i;
     if f then Some (work, finish, progressed)
     else do {
       ok \<leftarrow> need_fits s i work [0..<nat (numResources s)];
       if ok then do {
         work' \<leftarrow> for_each [0..<nat (numResources s)] (release s i) work;
         finish' \<leftarrow> vset finish i True;
         Some (work', finish', True)
       }
       else Some (work, finish, progressed)
     }
   })"

text \<open>The number of processes not yet marked finished.\<close>

definition unfinished :: "bool list \<Rightarrow> nat" where
  "unfinished finish = length (filter Not finish)"

lemma unfinished_update:
  assumes "i < length finish" "\<not> finish ! i"
  shows "unfinished (finish[i := True]) < unfinished finish"
proof -
  have a: "finish = take i finish @ finish ! i # drop (Suc i) finish"
    using assms(1) by (simp add: id_take_nth_drop)
  have b: "finish[i := True] = take i finish @ True # drop (Suc i) finish"
    using assms(1) by (simp add: upd_conv_take_nth_drop)
  have "unfinished finish = unfinished (take i finish @ finish ! i # drop (Suc i) finish)"
    using a by simp
  also have "\<dots> = Suc (unfinished (take i finish @ True # drop (Suc i) finish))"
    using assms(2) by (simp add: unfinished_def)
  finally show ?thesis using b by simp
qed

lemma scan_process_unfinished:
  assumes "scan_process s i (work, finish, progressed) = Some (work', finish', progressed')"
  shows "unfinished finish' \<le> unfinished finish
       \<and> (progressed \<longrightarrow> progressed')
       \<and> (progressed' \<longrightarrow> progressed \<or> unfinished finish' < unfinished finish)"
proof (cases "vget finish i")
  case None
  with assms show ?thesis by (simp add: scan_process_def)
next
  case (Some f)
  then have i: "i < length finish" and f: "f = finish ! i"
    by (auto simp: vget_def split: if_splits)
  show ?thesis
  proof (cases "f")
    case True
    with assms Some show ?thesis by (simp add: scan_process_def)
  next
    case False
    show ?thesis
    proof (cases "need_fits s i work [0..<nat (numResources s)]")
      case None
      with assms Some False show ?thesis by (simp add: scan_process_def)
    next
      case ok: (Some ok)
      show ?thesis
      proof (cases ok)
        case True
        with assms Some False ok i have "finish' = finish[i := True]" "progressed'"
          by (auto simp: scan_process_def vset_def split: Option.bind_splits)
        with unfinished_update [OF i] f False show ?thesis by simp
      next
        case notok: False
        with assms Some False ok show ?thesis by (simp add: scan_process_def)
      qed
    qed
  qed
qed

lemma scan_pass_unfinished:
  assumes "for_each order (scan_process s) (work, finish, progressed)
           = Some (work', finish', progressed')"
  shows "unfinished finish' \<le> unfinished finish
       \<and> (progressed \<longrightarrow> progressed')
       \<and> (progressed' \<longrightarrow> progressed \<or> unfinished finish' < unfinished finish)"
  using assms
proof (induction order arbitrary: work finish progressed)
  case Nil
  then show ?case by simp
next
  case (Cons k ks)
  from Cons.prems obtain w1 f1 p1 where
    step: "scan_process s k (work, finish, progressed) = Some (w1, f1, p1)" and
    rest: "for_each ks (scan_process s) (w1, f1, p1) = Some (work', finish', progressed')"
    by (auto split: option.splits)
  from scan_process_unfinished [OF step] Cons.IH [OF rest]
  show ?case by auto
qed

text \<open>
  The \<^verbatim>\<open>while (true)\<close> loop: one scan of the processes in the order \<open>order\<close>, left when the
  scan made no progress. The source scans \<open>[0..<nat numProcesses]\<close>; the order is a
  parameter so that other scan orders can be compared with it. The last argument counts
  the scans that have been run; the program does not hold it, it is returned so that the
  number of passes can be stated.
\<close>

function safety_loop ::
  "bankers \<Rightarrow> nat list \<Rightarrow> int list \<Rightarrow> bool list \<Rightarrow> nat \<Rightarrow> (int list \<times> bool list \<times> nat) option" where
  "safety_loop s order work finish passes =
     (case for_each order (scan_process s) (work, finish, False) of
        None \<Rightarrow> None
      | Some (work', finish', progressed) \<Rightarrow>
          if \<not> progressed then Some (work', finish', Suc passes)
          else safety_loop s order work' finish' (Suc passes))"
  by pat_completeness auto
termination
proof (relation "measure (\<lambda>(s, order, work, finish, passes). unfinished finish)")
  show "wf (measure (\<lambda>(s, order, work, finish, passes). unfinished finish))"
    by simp
next
  fix s :: bankers and order work finish and passes :: nat and x2 work' y finish' progressed
  assume "for_each order (scan_process s) (work, finish, False) = Some x2"
    and "(work', y) = x2" and "(finish', progressed) = y" and "\<not> \<not> progressed"
  then have "for_each order (scan_process s) (work, finish, False)
             = Some (work', finish', progressed)" and "progressed"
    by auto
  from scan_pass_unfinished [OF this(1)] this(2)
  show "((s, order, work', finish', Suc passes), (s, order, work, finish, passes))
        \<in> measure (\<lambda>(s, order, work, finish, passes). unfinished finish)"
    by simp
qed

text \<open>The closing loop: \<^verbatim>\<open>if (!finish[i]) return false\<close> for each process, else true.\<close>

fun all_finished :: "bool list \<Rightarrow> nat list \<Rightarrow> bool option" where
  "all_finished finish [] = Some True"
| "all_finished finish (i # ks) = do {
     f \<leftarrow> vget finish i;
     if \<not> f then Some False else all_finished finish ks
   }"

text \<open>
  \<open>isSafe_scan\<close> is the method with the scan order of its \<^verbatim>\<open>while\<close> loop as a parameter,
  \<open>isSafe\<close> the method as the source has it. The constructor of \<open>finish\<close> throws on a
  negative number of processes.
\<close>

definition isSafe_scan :: "bankers \<Rightarrow> nat list \<Rightarrow> bool option" where
  "isSafe_scan s order =
     (if numProcesses s < 0 then None
      else do {
        (work, finish, passes) \<leftarrow>
          safety_loop s order (available s) (replicate (nat (numProcesses s)) False) 0;
        all_finished finish [0..<nat (numProcesses s)]
      })"

definition isSafe :: "bankers \<Rightarrow> bool option" where
  "isSafe s = isSafe_scan s [0..<nat (numProcesses s)]"

subsection \<open>canRequest and applyRequest\<close>

fun canRequest_loop :: "bankers \<Rightarrow> nat \<Rightarrow> int list \<Rightarrow> nat list \<Rightarrow> bool option" where
  "canRequest_loop s pid req [] = Some True"
| "canRequest_loop s pid req (j # js) = do {
     r \<leftarrow> vget req j;
     n \<leftarrow> mat_get (need s) pid j;
     if r > n then Some False
     else do {
       a \<leftarrow> vget (available s) j;
       if r > a then Some False else canRequest_loop s pid req js
     }
   }"

definition canRequest :: "bankers \<Rightarrow> int \<Rightarrow> int list \<Rightarrow> bool option" where
  "canRequest s pid req =
     (if pid < 0 \<or> pid \<ge> numProcesses s then Some False
      else canRequest_loop s (nat pid) req [0..<nat (numResources s)])"

definition applyRequest_cell :: "nat \<Rightarrow> int list \<Rightarrow> nat \<Rightarrow> bankers \<Rightarrow> bankers option" where
  "applyRequest_cell pid req j s = do {
     r \<leftarrow> vget req j;
     a \<leftarrow> mat_get (allocation s) pid j;
     al \<leftarrow> mat_set (allocation s) pid j (wrap_int (a + r));
     v \<leftarrow> vget (available s) j;
     av \<leftarrow> vset (available s) j (wrap_int (v - r));
     n \<leftarrow> mat_get (need s) pid j;
     nd \<leftarrow> mat_set (need s) pid j (wrap_int (n - r));
     n' \<leftarrow> mat_get nd pid j;
     nd' \<leftarrow> (if n' < 0 then mat_set nd pid j 0 else Some nd);
     Some (s\<lparr>allocation := al, available := av, need := nd'\<rparr>)
   }"

definition applyRequest :: "bankers \<Rightarrow> int \<Rightarrow> int list \<Rightarrow> bankers option" where
  "applyRequest s pid req =
     (if pid < 0 \<or> pid \<ge> numProcesses s then Some s
      else for_each [0..<nat (numResources s)] (applyRequest_cell (nat pid) req) s)"

section \<open>The input stream\<close>

text \<open>
  \<^verbatim>\<open>cin\<close> is the text that is still to be read and the fail state of the stream. The
  program never clears the state, so once an extraction has failed every later one fails
  as well and leaves its target as it was. At the end of the text an extraction finds
  nothing after the white space and fails.
\<close>

record istream =
  buf :: string
  failed :: bool

definition isspace :: "char \<Rightarrow> bool" where
  "isspace c \<longleftrightarrow> c \<in> set [CHR '' '', CHR 0x09, CHR 0x0A, CHR 0x0B, CHR 0x0C, CHR 0x0D]"

definition isdigit :: "char \<Rightarrow> bool" where
  "isdigit c \<longleftrightarrow> c \<in> set ''0123456789''"

definition digit_value :: "char \<Rightarrow> int" where
  "digit_value c = int (of_char c) - 48"

definition decimal :: "string \<Rightarrow> int" where
  "decimal ds = foldl (\<lambda>v c. 10 * v + digit_value c) 0 ds"

text \<open>
  \<^verbatim>\<open>cin >> token\<close> for a string: the white space is skipped and the characters up to the
  next white space are the token. The first component is \<open>None\<close> when the extraction fails;
  the string of the program then keeps its value.
\<close>

definition read_token :: "istream \<Rightarrow> string option \<times> istream" where
  "read_token st =
     (if failed st then (None, st)
      else let b = dropWhile isspace (buf st) in
        if b = [] then (None, \<lparr>buf = [], failed = True\<rparr>)
        else (Some (takeWhile (\<lambda>c. \<not> isspace c) b),
              \<lparr>buf = dropWhile (\<lambda>c. \<not> isspace c) b, failed = False\<rparr>))"

text \<open>
  \<^verbatim>\<open>cin >> x\<close> for an \<^verbatim>\<open>int\<close> whose value was \<open>old\<close>: white space, a sign, decimal digits.
  Without a digit the value is 0 and the stream fails; a number outside the range of
  \<^verbatim>\<open>int\<close> gives the nearest bound and the stream fails.
\<close>

definition read_int :: "istream \<Rightarrow> int \<Rightarrow> int \<times> istream" where
  "read_int st old =
     (if failed st then (old, st)
      else let b = dropWhile isspace (buf st) in
        if b = [] then (old, \<lparr>buf = [], failed = True\<rparr>)
        else let negative = (hd b = CHR ''-'');
                 b1 = (if hd b = CHR ''-'' \<or> hd b = CHR ''+'' then tl b else b);
                 ds = takeWhile isdigit b1;
                 rest = dropWhile isdigit b1;
                 v = (if negative then - decimal ds else decimal ds)
             in if ds = [] then (0, \<lparr>buf = rest, failed = True\<rparr>)
                else if v < INT_MIN then (INT_MIN, \<lparr>buf = rest, failed = True\<rparr>)
                else if v > INT_MAX then (INT_MAX, \<lparr>buf = rest, failed = True\<rparr>)
                else (v, \<lparr>buf = rest, failed = False\<rparr>))"

section \<open>Output\<close>

definition quote :: char where "quote = CHR 0x27"

definition newline :: char where "newline = CHR 0x0A"

function show_nat :: "nat \<Rightarrow> string" where
  "show_nat n = (if n < 10 then [''0123456789'' ! n]
                 else show_nat (n div 10) @ [''0123456789'' ! (n mod 10)])"
  by pat_completeness auto
termination
  by (relation "measure id") auto

definition show_int :: "int \<Rightarrow> string" where
  "show_int i = (if i < 0 then CHR ''-'' # show_nat (nat (- i)) else show_nat (nat i))"

text \<open>\<open>printNeedWithHeader\<close>, appending to the text \<open>out\<close> written to \<^verbatim>\<open>cout\<close> so far.\<close>

definition print_need_cell :: "bankers \<Rightarrow> nat \<Rightarrow> nat \<Rightarrow> string \<Rightarrow> string option" where
  "print_need_cell s i j out = do {
     n \<leftarrow> mat_get (need s) i j;
     Some (out @ (if j \<noteq> 0 then '' '' else []) @ show_int n)
   }"

definition print_need_row :: "bankers \<Rightarrow> nat \<Rightarrow> string \<Rightarrow> string option" where
  "print_need_row s i out = do {
     out' \<leftarrow> for_each [0..<nat (numResources s)] (print_need_cell s i) out;
     Some (out' @ [newline])
   }"

definition printNeedWithHeader :: "bankers \<Rightarrow> string \<Rightarrow> string \<Rightarrow> string option" where
  "printNeedWithHeader s header out =
     for_each [0..<nat (numProcesses s)] (print_need_row s) (out @ header @ [newline])"

section \<open>main\<close>

text \<open>
  A run of the program on an input text ends in one of three ways: \<open>main\<close> returns, which
  gives the exit status, the text written to \<^verbatim>\<open>cerr\<close> and the text written to \<^verbatim>\<open>cout\<close>;
  the constructor of \<open>BankersAlgorithm\<close> throws and nothing catches the exception
  (\<open>Terminated\<close>); or a method leaves the defined behaviour (\<open>Undefined\<close>).
\<close>

datatype outcome = Exit int string string | Terminated | Undefined

text \<open>\<^verbatim>\<open>for (int j = 0; j < numResources; ++j) cin >> v[j];\<close> on a fresh vector of zeros.\<close>

definition read_cell :: "nat \<Rightarrow> istream \<times> int list \<Rightarrow> (istream \<times> int list) option" where
  "read_cell j = (\<lambda>(cin, v). do {
     old \<leftarrow> vget v j;
     (x, cin') \<leftarrow> Some (read_int cin old);
     v' \<leftarrow> vset v j x;
     Some (cin', v')
   })"

definition read_vector :: "int \<Rightarrow> istream \<Rightarrow> (istream \<times> int list) option" where
  "read_vector nResources cin =
     for_each [0..<nat nResources] read_cell (cin, replicate (nat nResources) 0)"

text \<open>The body of the loops that read the rows of Max and of Allocation.\<close>

definition read_row ::
  "(bankers \<Rightarrow> int \<Rightarrow> int list \<Rightarrow> bankers option) \<Rightarrow> int \<Rightarrow> nat \<Rightarrow> istream \<times> bankers
     \<Rightarrow> (istream \<times> bankers) option" where
  "read_row setRow nResources i = (\<lambda>(cin, bankers). do {
     (cin', row) \<leftarrow> read_vector nResources cin;
     bankers' \<leftarrow> setRow bankers (int i) row;
     Some (cin', bankers')
   })"

text \<open>
  \<^verbatim>\<open>stoi\<close>: \<open>None\<close> when it throws (no digit, or a number outside the range of \<^verbatim>\<open>int\<close>);
  \<open>main\<close> catches the exception and takes the process id \<open>-1\<close>.
\<close>

definition stoi :: "string \<Rightarrow> int option" where
  "stoi str =
     (let b = dropWhile isspace str;
          negative = (b \<noteq> [] \<and> hd b = CHR ''-'');
          b1 = (if b \<noteq> [] \<and> (hd b = CHR ''-'' \<or> hd b = CHR ''+'') then tl b else b);
          ds = takeWhile isdigit b1;
          v = (if negative then - decimal ds else decimal ds)
      in if ds = [] then None
         else if v < INT_MIN \<or> v > INT_MAX then None
         else Some v)"

definition parse_pid :: "string \<Rightarrow> int" where
  "parse_pid procName =
     (if procName \<noteq> [] \<and> (hd procName = CHR ''P'' \<or> hd procName = CHR ''p'')
      then (case stoi (tl procName) of Some v \<Rightarrow> v | None \<Rightarrow> - 1)
      else - 1)"

text \<open>
  The local variables \<^verbatim>\<open>numResources\<close>, \<^verbatim>\<open>numProcesses\<close> and \<^verbatim>\<open>available\<close> of \<open>main\<close> are
  \<open>nResources\<close>, \<open>nProcesses\<close> and \<open>avail\<close> here, the fields of the class keeping the names.
  \<open>main\<close> is cut where it reads a keyword: \<open>main\<close> reads \<^verbatim>\<open>R\<close>, \<open>main_P\<close> reads \<^verbatim>\<open>P\<close>,
  and so on; \<open>main_request\<close> is the rest, from the optional request line on.
\<close>

definition main_request :: "int \<Rightarrow> bankers \<Rightarrow> istream \<Rightarrow> outcome" where
  "main_request nResources bankers cin =
     (case read_token cin of (got, cin1) \<Rightarrow>
      let procName = (case got of None \<Rightarrow> [] | Some t \<Rightarrow> t) in
      case (if got \<noteq> None then read_vector nResources cin1
            else Some (cin1, replicate (nat nResources) 0)) of
        None \<Rightarrow> Undefined
      | Some (cin2, request) \<Rightarrow>
         (case computeNeed bankers of
            None \<Rightarrow> Undefined
          | Some bankers \<Rightarrow>
             if procName \<noteq> [] then
               (let pid = parse_pid procName in
                case isSafe bankers of
                  None \<Rightarrow> Undefined
                | Some False \<Rightarrow>
                    Exit 0 [] (''The current system is in unsafe state.'' @ [newline])
                | Some True \<Rightarrow>
                   (let out = ''Before granting the request of '' @ procName
                              @ '', the system is in safe state.'' @ [newline] in
                    case canRequest bankers pid request of
                      None \<Rightarrow> Undefined
                    | Some False \<Rightarrow>
                        Exit 0 [] (out @ procName @ [quote]
                          @ ''s request cannot be granted (exceeds need or available).''
                          @ [newline])
                    | Some True \<Rightarrow>
                       (let out = out @ ''Simulating granting '' @ procName @ [quote]
                                  @ ''s request.'' @ [newline] in
                        case applyRequest bankers pid request of
                          None \<Rightarrow> Undefined
                        | Some bankers \<Rightarrow>
                           (case printNeedWithHeader bankers ''New Need'' out of
                              None \<Rightarrow> Undefined
                            | Some out \<Rightarrow>
                               (case isSafe bankers of
                                  None \<Rightarrow> Undefined
                                | Some True \<Rightarrow>
                                    Exit 0 [] (out @ procName @ [quote]
                                      @ ''s request can be granted. The system will be in safe state.''
                                      @ [newline])
                                | Some False \<Rightarrow>
                                    Exit 0 [] (out @ procName @ [quote]
                                      @ ''s request cannot be granted. The system will be in unsafe state.''
                                      @ [newline]))))))
             else Exit 0 [] []))"

definition main_Allocation :: "int \<Rightarrow> int \<Rightarrow> bankers \<Rightarrow> istream \<Rightarrow> outcome" where
  "main_Allocation nProcesses nResources bankers cin =
     (case read_token cin of
        (None, _) \<Rightarrow> Exit 1 (''Unexpected EOF reading Allocation'' @ [newline]) []
      | (Some token, cin) \<Rightarrow>
          if token \<noteq> ''Allocation''
          then Exit 1 (''Expected 'Allocation' but found '' @ [quote] @ token @ [quote, newline]) []
          else (case for_each [0..<nat nProcesses] (read_row setAllocationRow nResources)
                       (cin, bankers) of
                  None \<Rightarrow> Undefined
                | Some (cin, bankers) \<Rightarrow> main_request nResources bankers cin))"

definition main_Max :: "int \<Rightarrow> int \<Rightarrow> bankers \<Rightarrow> istream \<Rightarrow> outcome" where
  "main_Max nProcesses nResources bankers cin =
     (case read_token cin of
        (None, _) \<Rightarrow> Exit 1 (''Unexpected EOF reading Max'' @ [newline]) []
      | (Some token, cin) \<Rightarrow>
          if token \<noteq> ''Max''
          then Exit 1 (''Expected 'Max' but found '' @ [quote] @ token @ [quote, newline]) []
          else (case for_each [0..<nat nProcesses] (read_row setMaxRow nResources)
                       (cin, bankers) of
                  None \<Rightarrow> Undefined
                | Some (cin, bankers) \<Rightarrow> main_Allocation nProcesses nResources bankers cin))"

definition main_Available :: "int \<Rightarrow> int \<Rightarrow> istream \<Rightarrow> outcome" where
  "main_Available nProcesses nResources cin =
     (case BankersAlgorithm nProcesses nResources of
        None \<Rightarrow> Terminated
      | Some bankers \<Rightarrow>
         (case read_token cin of
            (None, _) \<Rightarrow> Exit 1 (''Unexpected EOF reading Available'' @ [newline]) []
          | (Some token, cin) \<Rightarrow>
              if token \<noteq> ''Available''
              then Exit 1 (''Expected 'Available' but found '' @ [quote] @ token
                           @ [quote, newline]) []
              else (case read_vector nResources cin of
                      None \<Rightarrow> Undefined
                    | Some (cin, avail) \<Rightarrow>
                        main_Max nProcesses nResources (setAvailable bankers avail) cin)))"

definition main_P :: "int \<Rightarrow> istream \<Rightarrow> outcome" where
  "main_P nResources cin =
     (case read_token cin of
        (None, _) \<Rightarrow> Exit 1 (''Expected 'P' after resources'' @ [newline]) []
      | (Some token, cin) \<Rightarrow>
          if token = ''P''
          then (case read_int cin 0 of (nProcesses, cin) \<Rightarrow>
                  main_Available nProcesses nResources cin)
          else Exit 1 (''Expected 'P' token'' @ [newline]) [])"

definition main :: "string \<Rightarrow> outcome" where
  "main input =
     (case read_token \<lparr>buf = input, failed = False\<rparr> of
        (None, _) \<Rightarrow> Exit 0 [] []
      | (Some token, cin) \<Rightarrow>
          if token = ''R'' \<or> token = ''r''
          then (case read_int cin 0 of (nResources, cin) \<Rightarrow> main_P nResources cin)
          else Exit 1 (''Expected 'R' at start'' @ [newline]) [])"

subsection \<open>The input as a sequence of tokens\<close>





section \<open>States and safe sequences\<close>

text \<open>
  The invariant of the class: the dimensions are not negative, the three matrices have
  \<open>numProcesses\<close> rows of \<open>numResources\<close> entries and \<open>available\<close> has \<open>numResources\<close>
  entries. The constructor establishes it and every method keeps it (lemmas
  \<open>wf_BankersAlgorithm\<close>, \<open>setMaxRow_wf\<close>, \<open>wf_computeNeed\<close>, \<open>wf_applyRequest\<close> and
  their like below), so it holds of every state the program builds.
\<close>

definition rows_ok :: "nat \<Rightarrow> nat \<Rightarrow> 'a list list \<Rightarrow> bool" where
  "rows_ok p r m \<longleftrightarrow> length m = p \<and> list_all (\<lambda>row. length row = r) m"

definition wf_state :: "bankers \<Rightarrow> bool" where
  "wf_state s \<longleftrightarrow> 0 \<le> numProcesses s \<and> 0 \<le> numResources s
     \<and> rows_ok (nat (numProcesses s)) (nat (numResources s)) (allocation s)
     \<and> rows_ok (nat (numProcesses s)) (nat (numResources s)) (maxm s)
     \<and> rows_ok (nat (numProcesses s)) (nat (numResources s)) (need s)
     \<and> length (available s) = nat (numResources s)"

text \<open>
  No entry of the allocation matrix is negative. The specification asks this of its
  data; the program does not check it.
\<close>

definition nonneg_allocation :: "bankers \<Rightarrow> bool" where
  "nonneg_allocation s \<longleftrightarrow> list_all (list_all (\<lambda>x. 0 \<le> x)) (allocation s)"

text \<open>
  The safe sequences of the specification. Process \<open>i\<close> fits a work vector when its whole
  need row is at most the work vector, entry by entry; when it finishes, its allocation
  row is added to the work vector. An order of processes finishes from a work vector when
  each process in turn fits the work vector that the processes before it have left. A
  safe sequence is such an order, from \<open>available\<close>, of all the processes, each once; a
  state is safe when it has one.
\<close>

definition fits :: "bankers \<Rightarrow> nat \<Rightarrow> int list \<Rightarrow> bool" where
  "fits s i work \<longleftrightarrow> (\<forall>j<nat (numResources s). need s ! i ! j \<le> work ! j)"

definition grant :: "bankers \<Rightarrow> nat \<Rightarrow> int list \<Rightarrow> int list" where
  "grant s i work = map (\<lambda>j. work ! j + allocation s ! i ! j) [0..<nat (numResources s)]"

fun work_after :: "bankers \<Rightarrow> int list \<Rightarrow> nat list \<Rightarrow> int list" where
  "work_after s work [] = work"
| "work_after s work (i # ks) = work_after s (grant s i work) ks"

fun finishes_in_order :: "bankers \<Rightarrow> int list \<Rightarrow> nat list \<Rightarrow> bool" where
  "finishes_in_order s work [] = True"
| "finishes_in_order s work (i # ks) =
     (fits s i work \<and> finishes_in_order s (grant s i work) ks)"

definition safe_sequence :: "bankers \<Rightarrow> nat list \<Rightarrow> bool" where
  "safe_sequence s order \<longleftrightarrow>
     distinct order \<and> set order = {..<nat (numProcesses s)}
     \<and> finishes_in_order s (available s) order"

definition safe_state :: "bankers \<Rightarrow> bool" where
  "safe_state s \<longleftrightarrow> (\<exists>order. safe_sequence s order)"

text \<open>
  The work vector of \<open>isSafe\<close> after process \<open>i\<close> has finished, as the program computes
  it: the sums are stored in \<^verbatim>\<open>int\<close>s.
\<close>

definition released :: "bankers \<Rightarrow> nat \<Rightarrow> int list \<Rightarrow> int list" where
  "released s i work =
     map (\<lambda>j. wrap_int (work ! j + allocation s ! i ! j)) [0..<nat (numResources s)]"

text \<open>
  A value that an \<^verbatim>\<open>int\<close> holds. The totals of a state are in range when, for every
  resource, the available entry is an \<^verbatim>\<open>int\<close> and the available entry plus the whole
  allocation column, the total number of instances of the resource, is at most \<open>INT_MAX\<close>.
\<close>

definition in_int_range :: "int \<Rightarrow> bool" where
  "in_int_range x \<longleftrightarrow> INT_MIN \<le> x \<and> x \<le> INT_MAX"

definition totals_in_range :: "bankers \<Rightarrow> bool" where
  "totals_in_range s \<longleftrightarrow>
     list_all (\<lambda>j. INT_MIN \<le> available s ! j
                 \<and> available s ! j + sum_list (map (\<lambda>row. row ! j) (allocation s)) \<le> INT_MAX)
       [0..<nat (numResources s)]"

subsection \<open>Example states\<close>

text \<open>
  The state of the textbook example: five processes, three resource types. \<open>classic_loaded\<close>
  is the state after the constructor and the setters, \<open>classic_state\<close> the state after
  \<open>computeNeed\<close>.
\<close>

definition classic_loaded :: bankers where
  "classic_loaded =
     \<lparr> numProcesses = 5, numResources = 3,
       allocation = [[0, 1, 0], [2, 0, 0], [3, 0, 2], [2, 1, 1], [0, 0, 2]],
       maxm = [[7, 5, 3], [3, 2, 2], [9, 0, 2], [2, 2, 2], [4, 3, 3]],
       need = [[0, 0, 0], [0, 0, 0], [0, 0, 0], [0, 0, 0], [0, 0, 0]],
       available = [3, 3, 2] \<rparr>"

definition classic_state :: bankers where
  "classic_state =
     \<lparr> numProcesses = 5, numResources = 3,
       allocation = [[0, 1, 0], [2, 0, 0], [3, 0, 2], [2, 1, 1], [0, 0, 2]],
       maxm = [[7, 5, 3], [3, 2, 2], [9, 0, 2], [2, 2, 2], [4, 3, 3]],
       need = [[7, 4, 3], [1, 2, 2], [6, 0, 0], [0, 1, 1], [4, 3, 1]],
       available = [3, 3, 2] \<rparr>"

text \<open>
  A state with a negative entry in the allocation matrix: two processes, one resource type.
  The program reads its matrices with \<^verbatim>\<open>cin >> int\<close> and checks no sign, so the input
  \<^verbatim>\<open>R 1 P 2 Available 1 Max 0 1 Allocation -1 0\<close> builds it.
\<close>

definition negative_allocation_state :: bankers where
  "negative_allocation_state =
     \<lparr> numProcesses = 2, numResources = 1, allocation = [[- 1], [0]], maxm = [[0], [1]],
       need = [[1], [1]], available = [1] \<rparr>"

text \<open>
  Three states in which an operation of the program leaves the range of \<^verbatim>\<open>int\<close>; every
  entry is a value that \<^verbatim>\<open>cin >> int\<close> accepts. In \<open>overflow_work_state\<close>, built by the
  input \<^verbatim>\<open>R 1 P 2 Available 2147483647 Max 1 1 Allocation 1 0\<close>, no entry is negative and
  the sum of \<open>available\<close> and the allocation column is \<open>INT_MAX + 1\<close>. \<open>overflow_need_loaded\<close>
  is the state before \<open>computeNeed\<close> on the input
  \<^verbatim>\<open>R 1 P 1 Available 0 Max 2147483647 Allocation -1\<close>. \<open>overflow_request_state\<close> is the
  state after \<open>computeNeed\<close> on the input \<^verbatim>\<open>R 1 P 1 Available 5 Max 3 Allocation 0\<close>, to
  which the request \<^verbatim>\<open>P0 -2147483648\<close> is made.
\<close>

definition overflow_work_state :: bankers where
  "overflow_work_state =
     \<lparr> numProcesses = 2, numResources = 1, allocation = [[1], [0]], maxm = [[1], [1]],
       need = [[0], [1]], available = [2147483647] \<rparr>"

definition overflow_need_loaded :: bankers where
  "overflow_need_loaded =
     \<lparr> numProcesses = 1, numResources = 1, allocation = [[- 1]], maxm = [[2147483647]],
       need = [[0]], available = [0] \<rparr>"

definition overflow_request_state :: bankers where
  "overflow_request_state =
     \<lparr> numProcesses = 1, numResources = 1, allocation = [[0]], maxm = [[3]],
       need = [[3]], available = [5] \<rparr>"

subsection \<open>Invariants\<close>

text \<open>
  The invariant of the loops of \<open>computeNeed\<close> on the state \<open>s\<close> it started from: before
  the pass for row \<open>i\<close> and column \<open>k\<close> the need entries of the rows before \<open>i\<close> and of
  the columns before \<open>k\<close> in row \<open>i\<close> are computed, and nothing else of the state has changed.
\<close>

definition computeNeed_inv :: "bankers \<Rightarrow> nat \<Rightarrow> nat \<Rightarrow> bankers \<Rightarrow> bool" where
  "computeNeed_inv s i k b \<longleftrightarrow>
     numProcesses b = numProcesses s \<and> numResources b = numResources s
     \<and> maxm b = maxm s \<and> allocation b = allocation s \<and> available b = available s
     \<and> rows_ok (nat (numProcesses s)) (nat (numResources s)) (need b)
     \<and> (\<forall>i' j. j < nat (numResources s) \<and> (i' < i \<or> i' = i \<and> j < k) \<longrightarrow>
           need b ! i' ! j = max 0 (wrap_int (maxm s ! i' ! j - allocation s ! i' ! j)))"

text \<open>
  The invariant of the loop of \<open>applyRequest\<close> for process \<open>pid\<close>: before the pass for
  column \<open>k\<close> the request is applied in the columns before \<open>k\<close>.
\<close>

definition applyRequest_inv :: "bankers \<Rightarrow> nat \<Rightarrow> int list \<Rightarrow> nat \<Rightarrow> bankers \<Rightarrow> bool" where
  "applyRequest_inv s pid req k b \<longleftrightarrow>
     wf_state b \<and> numProcesses b = numProcesses s \<and> numResources b = numResources s
     \<and> maxm b = maxm s
     \<and> (\<forall>i<nat (numProcesses s). i \<noteq> pid \<longrightarrow>
           allocation b ! i = allocation s ! i \<and> need b ! i = need s ! i)
     \<and> (\<forall>j<nat (numResources s).
           allocation b ! pid ! j = (if j < k then wrap_int (allocation s ! pid ! j + req ! j)
                                     else allocation s ! pid ! j)
         \<and> available b ! j = (if j < k then wrap_int (available s ! j - req ! j)
                              else available s ! j)
         \<and> need b ! pid ! j = (if j < k then max 0 (wrap_int (need s ! pid ! j - req ! j))
                               else need s ! pid ! j))"

text \<open>
  The invariant of the \<^verbatim>\<open>while\<close> loop of \<open>isSafe\<close>: the processes marked finished, in
  the order in which they were marked, finish from \<open>available\<close> and leave \<open>work\<close>.
\<close>

definition scan_inv :: "bankers \<Rightarrow> int list \<Rightarrow> bool list \<Rightarrow> bool" where
  "scan_inv s work finish \<longleftrightarrow>
     length work = nat (numResources s) \<and> length finish = nat (numProcesses s)
     \<and> (\<exists>done. distinct done \<and> set done = {i. i < nat (numProcesses s) \<and> finish ! i}
           \<and> finishes_in_order s (available s) done
           \<and> work = work_after s (available s) done)"

section \<open>Loops and well-formed states\<close>

lemma wrap_int_id: "INT_MIN \<le> x \<Longrightarrow> x \<le> INT_MAX \<Longrightarrow> wrap_int x = x"
  by (simp add: wrap_int_def INT_MIN_def INT_MAX_def)

lemma wrap_int_range: "INT_MIN \<le> wrap_int x \<and> wrap_int x \<le> INT_MAX"
proof -
  have "0 \<le> (x - INT_MIN) mod 2 ^ 32" "(x - INT_MIN) mod 2 ^ 32 < 2 ^ 32"
    by simp_all
  then show ?thesis by (simp add: wrap_int_def INT_MIN_def INT_MAX_def)
qed

lemma rows_ok_nth: "rows_ok p r m \<Longrightarrow> i < p \<Longrightarrow> length (m ! i) = r"
  by (simp add: rows_ok_def list_all_length)

lemma rows_ok_length: "rows_ok p r m \<Longrightarrow> length m = p"
  by (simp add: rows_ok_def)

lemma rows_ok_update:
  "rows_ok p r m \<Longrightarrow> length row = r \<Longrightarrow> rows_ok p r (m[i := row])"
  by (cases "i < length m") (auto simp: rows_ok_def list_all_length nth_list_update)

lemma rows_ok_replicate: "rows_ok p r (replicate p (replicate r x))"
  by (simp add: rows_ok_def list_all_length)

lemma mat_get_Some:
  "i < length m \<Longrightarrow> j < length (m ! i) \<Longrightarrow> mat_get m i j = Some (m ! i ! j)"
  by (simp add: mat_get_def vget_def)

lemma mat_set_Some:
  "i < length m \<Longrightarrow> j < length (m ! i) \<Longrightarrow> mat_set m i j x = Some (m[i := (m ! i)[j := x]])"
  by (simp add: mat_set_def vget_def vset_def)

lemma for_each_append:
  "for_each (xs @ ys) body a =
     (case for_each xs body a of None \<Rightarrow> None | Some a' \<Rightarrow> for_each ys body a')"
  by (induction xs arbitrary: a) (auto split: option.splits)

text \<open>
  The rule for a counting loop: an invariant \<open>P k\<close> that holds before the pass for index
  \<open>k\<close> and that each pass, which must not fail, carries to \<open>Suc k\<close>.
\<close>

lemma for_each_upt_rule:
  assumes "P 0 a"
    and "\<And>k b. k < n \<Longrightarrow> P k b \<Longrightarrow> \<exists>b'. body k b = Some b' \<and> P (Suc k) b'"
  shows "\<exists>a'. for_each [0..<n] body a = Some a' \<and> P n a'"
  using assms(2)
proof (induction n)
  case 0
  with assms(1) show ?case by simp
next
  case (Suc n)
  then obtain a1 where a1: "for_each [0..<n] body a = Some a1" "P n a1"
    by (metis less_Suc_eq)
  from Suc.prems [of n a1] a1(2) obtain a2 where "body n a1 = Some a2" "P (Suc n) a2"
    by auto
  with a1 show ?case by (simp add: for_each_append)
qed

lemma wf_BankersAlgorithm: "BankersAlgorithm p r = Some s \<Longrightarrow> wf_state s"
  by (auto simp: BankersAlgorithm_def wf_state_def rows_ok_replicate split: if_splits)

lemma wf_setAvailable: "wf_state s \<Longrightarrow> wf_state (setAvailable s av)"
  by (auto simp: setAvailable_def wf_state_def)

lemma setMaxRow_wf:
  assumes "wf_state s"
  shows "\<exists>s'. setMaxRow s pid row = Some s' \<and> wf_state s'
              \<and> numProcesses s' = numProcesses s \<and> numResources s' = numResources s"
  using assms
  by (auto simp: setMaxRow_def wf_state_def vset_def rows_ok_update rows_ok_length)

lemma setAllocationRow_wf:
  assumes "wf_state s"
  shows "\<exists>s'. setAllocationRow s pid row = Some s' \<and> wf_state s'
              \<and> numProcesses s' = numProcesses s \<and> numResources s' = numResources s"
  using assms
  by (auto simp: setAllocationRow_def wf_state_def vset_def rows_ok_update rows_ok_length)

section \<open>canRequest compares the request with need and available\<close>

lemma canRequest_loop_eq:
  assumes "pid < length (need s)"
    and "\<forall>j\<in>set js. j < length (need s ! pid) \<and> j < length (available s) \<and> j < length req"
  shows "canRequest_loop s pid req js
         = Some (\<forall>j\<in>set js. req ! j \<le> need s ! pid ! j \<and> req ! j \<le> available s ! j)"
  using assms(2)
proof (induction js)
  case Nil
  then show ?case by simp
next
  case (Cons j js)
  then show ?case using assms(1)
    by (auto simp: vget_def mat_get_Some)
qed

lemma canRequest_value:
  assumes "wf_state s" and "length req = nat (numResources s)"
  shows "canRequest s pid req
         = Some (0 \<le> pid \<and> pid < numProcesses s
                 \<and> (\<forall>j<nat (numResources s).
                       req ! j \<le> need s ! nat pid ! j \<and> req ! j \<le> available s ! j))"
proof (cases "pid < 0 \<or> pid \<ge> numProcesses s")
  case True
  then show ?thesis by (auto simp: canRequest_def)
next
  case False
  then have pid: "nat pid < nat (numProcesses s)" by simp
  with assms(1) have "nat pid < length (need s)"
    "length (need s ! nat pid) = nat (numResources s)"
    "length (available s) = nat (numResources s)"
    by (auto simp: wf_state_def rows_ok_length rows_ok_nth)
  with assms(2) canRequest_loop_eq [of "nat pid" s "[0..<nat (numResources s)]" req]
  have "canRequest_loop s (nat pid) req [0..<nat (numResources s)]
        = Some (\<forall>j\<in>set [0..<nat (numResources s)].
                  req ! j \<le> need s ! nat pid ! j \<and> req ! j \<le> available s ! j)"
    by simp
  with False show ?thesis by (auto simp: canRequest_def)
qed

lemma canRequest_Some:
  assumes "wf_state s" and "length req = nat (numResources s)"
  shows "\<exists>b. canRequest s pid req = Some b"
  using canRequest_value [OF assms] by blast

lemma canRequest_loop_True:
  assumes "canRequest_loop s pid req js = Some True" and "j \<in> set js"
  shows "j < length req \<and> pid < length (need s) \<and> j < length (need s ! pid)
         \<and> j < length (available s)
         \<and> req ! j \<le> need s ! pid ! j \<and> req ! j \<le> available s ! j"
  using assms
proof (induction js)
  case Nil
  then show ?case by simp
next
  case (Cons k ks)
  from Cons.prems(1) have
    hd: "k < length req \<and> pid < length (need s) \<and> k < length (need s ! pid)
         \<and> k < length (available s)
         \<and> req ! k \<le> need s ! pid ! k \<and> req ! k \<le> available s ! k"
    and tl: "canRequest_loop s pid req ks = Some True"
    by (auto simp: vget_def mat_get_def split: Option.bind_splits if_splits)
  show ?case
  proof (cases "j = k")
    case True
    with hd show ?thesis by simp
  next
    case False
    with Cons.prems(2) have "j \<in> set ks" by simp
    from Cons.IH [OF tl this] show ?thesis .
  qed
qed

section \<open>computeNeed fills the need matrix\<close>

lemma computeNeed_cell_Some:
  assumes "i < length (maxm s)" "j < length (maxm s ! i)"
    and "i < length (allocation s)" "j < length (allocation s ! i)"
    and "i < length (need s)" "j < length (need s ! i)"
  shows "computeNeed_cell i j s
         = Some (s\<lparr>need := (need s)[i := (need s ! i)
                     [j := max 0 (wrap_int (maxm s ! i ! j - allocation s ! i ! j))]]\<rparr>)"
  using assms by (simp add: computeNeed_cell_def mat_get_Some mat_set_Some max_def)

lemma computeNeed_cell_inv:
  assumes wf: "wf_state s" and i: "i < nat (numProcesses s)" and k: "k < nat (numResources s)"
    and inv: "computeNeed_inv s i k b"
  shows "\<exists>b'. computeNeed_cell i k b = Some b' \<and> computeNeed_inv s i (Suc k) b'"
proof -
  let ?v = "max 0 (wrap_int (maxm s ! i ! k - allocation s ! i ! k))"
  let ?b' = "b\<lparr>need := (need b)[i := (need b ! i)[k := ?v]]\<rparr>"
  from inv have fr: "maxm b = maxm s" "allocation b = allocation s"
    and nd: "rows_ok (nat (numProcesses s)) (nat (numResources s)) (need b)"
    by (simp_all add: computeNeed_inv_def)
  from wf have sh: "rows_ok (nat (numProcesses s)) (nat (numResources s)) (maxm s)"
    "rows_ok (nat (numProcesses s)) (nat (numResources s)) (allocation s)"
    by (simp_all add: wf_state_def)
  have len: "length (need b) = nat (numProcesses s)" "length (need b ! i) = nat (numResources s)"
    using nd i by (simp_all add: rows_ok_length rows_ok_nth)
  have "computeNeed_cell i k b = Some ?b'"
    using computeNeed_cell_Some [of i b k] fr sh nd i k
    by (simp add: rows_ok_length rows_ok_nth)
  moreover have "computeNeed_inv s i (Suc k) ?b'"
    unfolding computeNeed_inv_def
  proof (intro conjI allI impI)
    show "rows_ok (nat (numProcesses s)) (nat (numResources s)) (need ?b')"
      using nd len by (simp add: rows_ok_update)
  next
    fix i' j
    assume a: "j < nat (numResources s) \<and> (i' < i \<or> i' = i \<and> j < Suc k)"
    show "need ?b' ! i' ! j = max 0 (wrap_int (maxm s ! i' ! j - allocation s ! i' ! j))"
    proof (cases "i' = i")
      case True
      with a inv len i show ?thesis
        by (cases "j = k") (auto simp: computeNeed_inv_def nth_list_update)
    next
      case False
      with a inv len i show ?thesis
        by (auto simp: computeNeed_inv_def nth_list_update)
    qed
  qed (use inv in \<open>simp_all add: computeNeed_inv_def\<close>)
  ultimately show ?thesis by blast
qed

lemma computeNeed_row_inv:
  assumes wf: "wf_state s" and i: "i < nat (numProcesses s)"
    and inv: "computeNeed_inv s i 0 b"
  shows "\<exists>b'. for_each [0..<nat (numResources b)] (\<lambda>j. computeNeed_cell i j) b = Some b'
              \<and> computeNeed_inv s (Suc i) 0 b'"
proof -
  have R: "numResources b = numResources s" using inv by (simp add: computeNeed_inv_def)
  from for_each_upt_rule [where P = "computeNeed_inv s i" and n = "nat (numResources s)"
      and body = "\<lambda>j. computeNeed_cell i j" and a = b, OF inv]
    computeNeed_cell_inv [OF wf i]
  obtain b' where b': "for_each [0..<nat (numResources s)] (\<lambda>j. computeNeed_cell i j) b = Some b'"
    "computeNeed_inv s i (nat (numResources s)) b'"
    by blast
  from b'(2) have "computeNeed_inv s (Suc i) 0 b'"
    by (auto simp: computeNeed_inv_def less_Suc_eq)
  with b'(1) R show ?thesis by simp
qed

lemma computeNeed_Some:
  assumes wf: "wf_state s"
  shows "\<exists>s'. computeNeed s = Some s' \<and> computeNeed_inv s (nat (numProcesses s)) 0 s'"
proof -
  have init: "computeNeed_inv s 0 0 s"
    using wf by (simp add: computeNeed_inv_def wf_state_def)
  have step: "\<And>i b. i < nat (numProcesses s) \<Longrightarrow> computeNeed_inv s i 0 b \<Longrightarrow>
     \<exists>b'. for_each [0..<nat (numResources s)] (\<lambda>j. computeNeed_cell i j) b = Some b'
         \<and> computeNeed_inv s (Suc i) 0 b'"
    using computeNeed_row_inv [OF wf] by (simp add: computeNeed_inv_def)
  from for_each_upt_rule [where P = "\<lambda>i. computeNeed_inv s i 0" and n = "nat (numProcesses s)"
      and body = "\<lambda>i. for_each [0..<nat (numResources s)] (\<lambda>j. computeNeed_cell i j)" and a = s,
      OF init step]
  show ?thesis by (simp add: computeNeed_def)
qed

lemma wf_computeNeed:
  assumes "wf_state s" "computeNeed s = Some s'"
  shows "wf_state s'"
  using computeNeed_Some [OF assms(1)] assms
  by (auto simp: computeNeed_inv_def wf_state_def)

section \<open>applyRequest moves the request from available to allocation\<close>

lemma applyRequest_cell_Some:
  assumes "j < length req" "pid < length (allocation s)" "j < length (allocation s ! pid)"
    and "j < length (available s)" "pid < length (need s)" "j < length (need s ! pid)"
  shows "applyRequest_cell pid req j s
         = Some (s\<lparr>allocation := (allocation s)[pid := (allocation s ! pid)
                       [j := wrap_int (allocation s ! pid ! j + req ! j)]],
                   available := (available s)[j := wrap_int (available s ! j - req ! j)],
                   need := (need s)[pid := (need s ! pid)
                       [j := max 0 (wrap_int (need s ! pid ! j - req ! j))]]\<rparr>)"
  using assms
  by (simp add: applyRequest_cell_def mat_get_Some mat_set_Some vget_def vset_def max_def)

lemma applyRequest_cell_inv:
  assumes pid: "pid < nat (numProcesses s)" and k: "k < nat (numResources s)"
    and req: "nat (numResources s) \<le> length req"
    and inv: "applyRequest_inv s pid req k b"
  shows "\<exists>b'. applyRequest_cell pid req k b = Some b' \<and> applyRequest_inv s pid req (Suc k) b'"
proof -
  let ?P = "nat (numProcesses s)" and ?R = "nat (numResources s)"
  from inv have wfb: "wf_state b" and dims: "numProcesses b = numProcesses s"
    "numResources b = numResources s"
    by (simp_all add: applyRequest_inv_def)
  from wfb dims have sh: "rows_ok ?P ?R (allocation b)" "rows_ok ?P ?R (need b)"
    "rows_ok ?P ?R (maxm b)" "length (available b) = ?R"
    by (simp_all add: wf_state_def)
  have len: "length (allocation b) = ?P" "length (need b) = ?P"
    "length (allocation b ! pid) = ?R" "length (need b ! pid) = ?R"
    using sh pid by (simp_all add: rows_ok_length rows_ok_nth)
  let ?b' = "b\<lparr>allocation := (allocation b)[pid := (allocation b ! pid)
                       [k := wrap_int (allocation b ! pid ! k + req ! k)]],
                   available := (available b)[k := wrap_int (available b ! k - req ! k)],
                   need := (need b)[pid := (need b ! pid)
                       [k := max 0 (wrap_int (need b ! pid ! k - req ! k))]]\<rparr>"
  have cell: "applyRequest_cell pid req k b = Some ?b'"
    using applyRequest_cell_Some [of k req pid b] len sh(4) pid k req by simp
  have wf': "wf_state ?b'"
    using wfb sh len by (simp add: wf_state_def rows_ok_update)
  have "applyRequest_inv s pid req (Suc k) ?b'"
    unfolding applyRequest_inv_def
  proof (intro conjI allI impI)
    show "wf_state ?b'" by (rule wf')
  next
    fix i assume "i < ?P" "i \<noteq> pid"
    with inv show "allocation ?b' ! i = allocation s ! i" "need ?b' ! i = need s ! i"
      by (simp_all add: applyRequest_inv_def)
  next
    fix j assume j: "j < ?R"
    from inv j k have old: "allocation b ! pid ! j = (if j < k then wrap_int (allocation s ! pid ! j + req ! j)
                                     else allocation s ! pid ! j)"
      "available b ! j = (if j < k then wrap_int (available s ! j - req ! j) else available s ! j)"
      "need b ! pid ! j = (if j < k then max 0 (wrap_int (need s ! pid ! j - req ! j))
                               else need s ! pid ! j)"
      "allocation b ! pid ! k = allocation s ! pid ! k"
      "available b ! k = available s ! k"
      "need b ! pid ! k = need s ! pid ! k"
      by (simp_all add: applyRequest_inv_def)
    show "allocation ?b' ! pid ! j = (if j < Suc k then wrap_int (allocation s ! pid ! j + req ! j)
                                     else allocation s ! pid ! j)"
      using old j k len pid by (cases "j = k") (auto simp: nth_list_update)
    show "available ?b' ! j = (if j < Suc k then wrap_int (available s ! j - req ! j) else available s ! j)"
      using old j k sh(4) by (cases "j = k") (auto simp: nth_list_update)
    show "need ?b' ! pid ! j = (if j < Suc k then max 0 (wrap_int (need s ! pid ! j - req ! j))
                               else need s ! pid ! j)"
      using old j k len pid by (cases "j = k") (auto simp: nth_list_update)
  qed (use inv in \<open>simp_all add: applyRequest_inv_def\<close>)
  with cell show ?thesis by blast
qed

lemma applyRequest_Some:
  assumes wf: "wf_state s" and pid: "0 \<le> pid" "pid < numProcesses s"
    and req: "nat (numResources s) \<le> length req"
  shows "\<exists>s'. applyRequest s pid req = Some s'
              \<and> applyRequest_inv s (nat pid) req (nat (numResources s)) s'"
proof -
  have init: "applyRequest_inv s (nat pid) req 0 s"
    using wf by (simp add: applyRequest_inv_def)
  from pid have p: "nat pid < nat (numProcesses s)" by simp
  from for_each_upt_rule [where P = "applyRequest_inv s (nat pid) req"
      and n = "nat (numResources s)" and body = "applyRequest_cell (nat pid) req" and a = s,
      OF init] applyRequest_cell_inv [OF p _ req]
  have "\<exists>s'. for_each [0..<nat (numResources s)] (applyRequest_cell (nat pid) req) s = Some s'
              \<and> applyRequest_inv s (nat pid) req (nat (numResources s)) s'"
    by blast
  with pid show ?thesis by (simp add: applyRequest_def)
qed

lemma sum_one_row_changed:
  fixes f g :: "nat \<Rightarrow> int"
  assumes "p < n" and "\<forall>i<n. i \<noteq> p \<longrightarrow> f i = g i"
  shows "(\<Sum>i<n. f i) = (\<Sum>i<n. g i) + (f p - g p)"
proof -
  have "(\<Sum>i<n. f i) = f p + (\<Sum>i\<in>{..<n} - {p}. f i)"
    using assms(1) by (simp add: sum.remove)
  moreover have "(\<Sum>i<n. g i) = g p + (\<Sum>i\<in>{..<n} - {p}. g i)"
    using assms(1) by (simp add: sum.remove)
  moreover have "(\<Sum>i\<in>{..<n} - {p}. f i) = (\<Sum>i\<in>{..<n} - {p}. g i)"
    using assms(2) by (intro sum.cong) auto
  ultimately show ?thesis by simp
qed

lemma wf_applyRequest:
  assumes "wf_state s" "nat (numResources s) \<le> length req" "applyRequest s pid req = Some s'"
  shows "wf_state s'"
proof (cases "0 \<le> pid \<and> pid < numProcesses s")
  case True
  with applyRequest_Some [OF assms(1) _ _ assms(2), of pid] assms(3)
  show ?thesis by (auto simp: applyRequest_inv_def)
next
  case False
  with assms show ?thesis by (auto simp: applyRequest_def)
qed

section \<open>One scan of isSafe\<close>

lemma length_released [simp]: "length (released s i work) = nat (numResources s)"
  by (simp add: released_def)

lemma nth_released [simp]:
  "j < nat (numResources s) \<Longrightarrow>
   released s i work ! j = wrap_int (work ! j + allocation s ! i ! j)"
  by (simp add: released_def)

lemma length_grant [simp]: "length (grant s i work) = nat (numResources s)"
  by (simp add: grant_def)

lemma nth_grant [simp]:
  "j < nat (numResources s) \<Longrightarrow> grant s i work ! j = work ! j + allocation s ! i ! j"
  by (simp add: grant_def)

lemma need_fits_eq:
  assumes "i < length (need s)"
    and "\<forall>j\<in>set js. j < length (need s ! i) \<and> j < length work"
  shows "need_fits s i work js = Some (\<forall>j\<in>set js. need s ! i ! j \<le> work ! j)"
  using assms(2)
proof (induction js)
  case Nil
  then show ?case by simp
next
  case (Cons j js)
  then show ?case using assms(1)
    by (auto simp: vget_def mat_get_Some)
qed

lemma need_fits_fits:
  assumes "wf_state s" "i < nat (numProcesses s)" "length work = nat (numResources s)"
  shows "need_fits s i work [0..<nat (numResources s)] = Some (fits s i work)"
proof -
  from assms have "i < length (need s)" "length (need s ! i) = nat (numResources s)"
    by (auto simp: wf_state_def rows_ok_length rows_ok_nth)
  with need_fits_eq [of i s "[0..<nat (numResources s)]" work] assms(3)
  show ?thesis by (auto simp: fits_def)
qed

lemma release_released:
  assumes wf: "wf_state s" and i: "i < nat (numProcesses s)"
    and len: "length work = nat (numResources s)"
  shows "for_each [0..<nat (numResources s)] (release s i) work = Some (released s i work)"
proof -
  let ?R = "nat (numResources s)"
  let ?I = "\<lambda>k b. length b = ?R
              \<and> (\<forall>j<?R. b ! j = (if j < k then wrap_int (work ! j + allocation s ! i ! j)
                                 else work ! j))"
  from wf i have al: "i < length (allocation s)" "length (allocation s ! i) = ?R"
    by (auto simp: wf_state_def rows_ok_length rows_ok_nth)
  have init: "?I 0 work" using len by simp
  have step: "\<exists>b'. release s i k b = Some b' \<and> ?I (Suc k) b'" if "k < ?R" "?I k b" for k b
  proof -
    from that al
    have "release s i k b = Some (b[k := wrap_int (b ! k + allocation s ! i ! k)])"
      by (simp add: release_def vget_def vset_def mat_get_Some)
    moreover from that have "?I (Suc k) (b[k := wrap_int (b ! k + allocation s ! i ! k)])"
      by (auto simp: nth_list_update less_Suc_eq)
    ultimately show ?thesis by blast
  qed
  from for_each_upt_rule [where P = ?I and n = ?R and body = "release s i" and a = work,
      OF init step]
  obtain w' where w': "for_each [0..<?R] (release s i) work = Some w'" "?I ?R w'"
    by blast
  from w'(2) have "w' = released s i work"
    by (intro nth_equalityI) simp_all
  with w'(1) show ?thesis by simp
qed

lemma scan_process_eq:
  assumes wf: "wf_state s" and i: "i < nat (numProcesses s)"
    and len: "length work = nat (numResources s)" "length finish = nat (numProcesses s)"
  shows "scan_process s i (work, finish, progressed)
         = Some (if \<not> finish ! i \<and> fits s i work
                 then (released s i work, finish[i := True], True)
                 else (work, finish, progressed))"
  using i len need_fits_fits [OF wf i len(1)] release_released [OF wf i len(1)]
  by (simp add: scan_process_def vget_def vset_def)

text \<open>The scans keep the lengths of \<open>work\<close> and \<open>finish\<close>, whatever the entries are.\<close>

lemma scan_pass_shape:
  assumes wf: "wf_state s" and ord: "set order \<subseteq> {..<nat (numProcesses s)}"
    and len: "length work = nat (numResources s)" "length finish = nat (numProcesses s)"
  shows "\<exists>work' finish' progressed'.
           for_each order (scan_process s) (work, finish, progressed)
             = Some (work', finish', progressed')
         \<and> length work' = nat (numResources s) \<and> length finish' = nat (numProcesses s)"
  using ord len
proof (induction order arbitrary: work finish progressed)
  case Nil
  then show ?case by simp
next
  case (Cons k ks)
  from Cons.prems(1) have k: "k < nat (numProcesses s)" and ks: "set ks \<subseteq> {..<nat (numProcesses s)}"
    by auto
  from scan_process_eq [OF wf k Cons.prems(2,3), of progressed] obtain w1 f1 p1 where
    step: "scan_process s k (work, finish, progressed) = Some (w1, f1, p1)"
    and len1: "length w1 = nat (numResources s)" "length f1 = nat (numProcesses s)"
    using Cons.prems(2,3) by (cases "\<not> finish ! k \<and> fits s k work") auto
  from Cons.IH [OF ks len1, of p1] step show ?case by simp
qed

lemma safety_loop_shape:
  assumes wf: "wf_state s" and ord: "set order \<subseteq> {..<nat (numProcesses s)}"
    and len: "length work = nat (numResources s)" "length finish = nat (numProcesses s)"
  shows "\<exists>work' finish' n.
           safety_loop s order work finish passes = Some (work', finish', n)
         \<and> length finish' = nat (numProcesses s)
         \<and> n \<le> passes + unfinished finish + 1"
  using wf ord len
proof (induction s order work finish passes rule: safety_loop.induct)
  case (1 s order work finish passes)
  from scan_pass_shape [OF "1.prems", of False] obtain w1 f1 p1 where
    pass: "for_each order (scan_process s) (work, finish, False) = Some (w1, f1, p1)"
    and len1: "length w1 = nat (numResources s)" "length f1 = nat (numProcesses s)"
    by blast
  show ?case
  proof (cases p1)
    case False
    with pass have "safety_loop s order work finish passes = Some (w1, f1, Suc passes)"
      by (simp add: safety_loop.simps [of s order work finish passes])
    with len1 show ?thesis by simp
  next
    case True
    with pass have unf: "safety_loop s order work finish passes
                    = safety_loop s order w1 f1 (Suc passes)"
      by (simp add: safety_loop.simps [of s order work finish passes])
    from scan_pass_unfinished [OF pass] True have less: "unfinished f1 < unfinished finish"
      by simp
    from "1.IH" [OF pass refl refl _ "1.prems"(1,2) len1] True obtain w2 f2 n where
      "safety_loop s order w1 f1 (Suc passes) = Some (w2, f2, n)"
      "length f2 = nat (numProcesses s)"
      "n \<le> Suc passes + unfinished f1 + 1"
      by auto
    with unf less show ?thesis by auto
  qed
qed

lemma all_finished_eq:
  assumes "\<forall>i\<in>set ks. i < length finish"
  shows "all_finished finish ks = Some (\<forall>i\<in>set ks. finish ! i)"
  using assms by (induction ks) (auto simp: vget_def)

lemma unfinished_replicate: "unfinished (replicate n False) = n"
  by (simp add: unfinished_def)

lemma safety_loop_returns:
  assumes wf: "wf_state s" and ord: "set order \<subseteq> {..<nat (numProcesses s)}"
  shows "\<exists>work finish n.
           safety_loop s order (available s) (replicate (nat (numProcesses s)) False) 0
             = Some (work, finish, n)
         \<and> n \<le> nat (numProcesses s) + 1
         \<and> isSafe_scan s order = Some (\<forall>i<nat (numProcesses s). finish ! i)"
proof -
  from wf have av: "length (available s) = nat (numResources s)" and P: "0 \<le> numProcesses s"
    by (simp_all add: wf_state_def)
  from safety_loop_shape [OF wf ord av, of "replicate (nat (numProcesses s)) False" 0]
  obtain w f n where
    res: "safety_loop s order (available s) (replicate (nat (numProcesses s)) False) 0
            = Some (w, f, n)"
    and len: "length f = nat (numProcesses s)"
    and n: "n \<le> nat (numProcesses s) + 1"
    by (auto simp: unfinished_replicate)
  from len have "all_finished f [0..<nat (numProcesses s)] = Some (\<forall>i<nat (numProcesses s). f ! i)"
    using all_finished_eq [of "[0..<nat (numProcesses s)]" f] by auto
  with P res have "isSafe_scan s order = Some (\<forall>i<nat (numProcesses s). f ! i)"
    by (simp add: isSafe_scan_def)
  with res n show ?thesis by blast
qed

lemma isSafe_scan_returns:
  assumes "wf_state s" "set order \<subseteq> {..<nat (numProcesses s)}"
  shows "\<exists>b. isSafe_scan s order = Some b"
  using safety_loop_returns [OF assms] by blast

lemma isSafe_Some: "wf_state s \<Longrightarrow> \<exists>b. isSafe s = Some b"
  using isSafe_scan_returns [of s "[0..<nat (numProcesses s)]"]
  by (auto simp: isSafe_def atLeast0LessThan)

section \<open>The loop of isSafe and the safe sequences\<close>

lemma work_after_append:
  "work_after s work (xs @ ys) = work_after s (work_after s work xs) ys"
  by (induction xs arbitrary: work) simp_all

lemma finishes_in_order_append:
  "finishes_in_order s work (xs @ ys)
   \<longleftrightarrow> finishes_in_order s work xs \<and> finishes_in_order s (work_after s work xs) ys"
  by (induction xs arbitrary: work) auto

lemma work_after_nth:
  "j < nat (numResources s) \<Longrightarrow>
   work_after s work xs ! j = work ! j + (\<Sum>i\<leftarrow>xs. allocation s ! i ! j)"
  by (induction xs arbitrary: work) simp_all

lemma nonneg_allocation_nth:
  assumes "wf_state s" "nonneg_allocation s" "i < nat (numProcesses s)" "j < nat (numResources s)"
  shows "0 \<le> allocation s ! i ! j"
proof -
  from assms(1,3,4) have "i < length (allocation s)" "j < length (allocation s ! i)"
    by (auto simp: wf_state_def rows_ok_length rows_ok_nth)
  with assms(2) show ?thesis
    by (simp add: nonneg_allocation_def list_all_length)
qed

lemma sum_list_column: "sum_list (map (\<lambda>row. row ! j) m) = (\<Sum>i<length m. m ! i ! j)"
proof -
  have "sum_list (map (\<lambda>row. row ! j) m)
        = (\<Sum>i = 0..<length m. map (\<lambda>row. row ! j) m ! i)"
    by (simp add: sum_list_sum_nth)
  also have "\<dots> = (\<Sum>i = 0..<length m. m ! i ! j)"
    by (intro sum.cong) simp_all
  finally show ?thesis by (simp add: atLeast0LessThan)
qed

lemma totals_in_range_nth:
  assumes "wf_state s" "totals_in_range s" "j < nat (numResources s)"
  shows "INT_MIN \<le> available s ! j
       \<and> available s ! j + (\<Sum>i<nat (numProcesses s). allocation s ! i ! j) \<le> INT_MAX"
proof -
  from assms(1) have "length (allocation s) = nat (numProcesses s)"
    by (auto simp: wf_state_def dest: rows_ok_length)
  with assms(2,3) show ?thesis
    by (simp add: totals_in_range_def list_all_length sum_list_column)
qed

text \<open>
  Where no allocation entry is negative and the totals are in range, every work vector
  that a sequence of distinct processes leaves is in range: it lies between \<open>available\<close>
  and the total.
\<close>

lemma work_after_range:
  assumes wf: "wf_state s" and nn: "nonneg_allocation s" and tot: "totals_in_range s"
    and xs: "distinct xs" "set xs \<subseteq> {..<nat (numProcesses s)}"
    and j: "j < nat (numResources s)"
  shows "in_int_range (work_after s (available s) xs ! j)"
proof -
  let ?a = "\<lambda>i. allocation s ! i ! j"
  have nonneg: "0 \<le> ?a i" if "i < nat (numProcesses s)" for i
    using nonneg_allocation_nth [OF wf nn that j] .
  have eq: "work_after s (available s) xs ! j = available s ! j + (\<Sum>i\<in>set xs. ?a i)"
    using j xs(1) by (simp add: work_after_nth sum_list_distinct_conv_sum_set)
  have lo: "0 \<le> (\<Sum>i\<in>set xs. ?a i)"
    using xs(2) nonneg by (intro sum_nonneg) auto
  have hi: "(\<Sum>i\<in>set xs. ?a i) \<le> (\<Sum>i<nat (numProcesses s). ?a i)"
    using xs(2) nonneg by (intro sum_mono2) auto
  from totals_in_range_nth [OF wf tot j] eq lo hi show ?thesis
    by (simp add: in_int_range_def)
qed

lemma scan_inv_init:
  "wf_state s \<Longrightarrow> scan_inv s (available s) (replicate (nat (numProcesses s)) False)"
  unfolding scan_inv_def
  by (intro conjI exI [of _ "[]"]) (auto simp: wf_state_def)

lemma scan_inv_released:
  assumes wf: "wf_state s" and nn: "nonneg_allocation s" and tot: "totals_in_range s"
    and inv: "scan_inv s work finish" and i: "i < nat (numProcesses s)"
    and nf: "\<not> finish ! i" and fit: "fits s i work"
  shows "scan_inv s (released s i work) (finish[i := True])"
proof -
  from inv obtain dn where len: "length finish = nat (numProcesses s)"
    and dn: "distinct dn" "set dn = {i. i < nat (numProcesses s) \<and> finish ! i}"
    "finishes_in_order s (available s) dn" "work = work_after s (available s) dn"
    by (auto simp: scan_inv_def)
  have d: "distinct (dn @ [i])" using dn(1,2) nf by simp
  have st: "set (dn @ [i]) = {k. k < nat (numProcesses s) \<and> finish[i := True] ! k}"
    using dn(2) i len by (auto simp: nth_list_update)
  have fin: "finishes_in_order s (available s) (dn @ [i])"
    using dn(3,4) fit by (simp add: finishes_in_order_append)
  have gr: "grant s i work = work_after s (available s) (dn @ [i])"
    using dn(4) by (simp add: work_after_append)
  have sub: "set (dn @ [i]) \<subseteq> {..<nat (numProcesses s)}" using st by auto
  have "released s i work = grant s i work"
  proof (intro nth_equalityI)
    show "length (released s i work) = length (grant s i work)" by simp
  next
    fix j assume "j < length (released s i work)"
    then have j: "j < nat (numResources s)" by simp
    from work_after_range [OF wf nn tot d sub j] gr j
    have "in_int_range (work ! j + allocation s ! i ! j)" by (metis nth_grant)
    with j show "released s i work ! j = grant s i work ! j"
      by (simp add: in_int_range_def wrap_int_id)
  qed
  with gr have "released s i work = work_after s (available s) (dn @ [i])" by simp
  with d st fin have "\<exists>done. distinct done
      \<and> set done = {k. k < nat (numProcesses s) \<and> finish[i := True] ! k}
      \<and> finishes_in_order s (available s) done
      \<and> released s i work = work_after s (available s) done"
    by blast
  moreover have "length (released s i work) = nat (numResources s)" by simp
  moreover have "length (finish[i := True]) = nat (numProcesses s)" using len by simp
  ultimately show ?thesis unfolding scan_inv_def by blast
qed

lemma scan_process_inv:
  assumes wf: "wf_state s" and nn: "nonneg_allocation s" and tot: "totals_in_range s"
    and inv: "scan_inv s work finish" and i: "i < nat (numProcesses s)"
  shows "\<exists>work' finish' progressed'.
           scan_process s i (work, finish, progressed) = Some (work', finish', progressed')
         \<and> scan_inv s work' finish'
         \<and> (\<not> progressed' \<longrightarrow>
              work' = work \<and> finish' = finish \<and> \<not> progressed \<and> (finish ! i \<or> \<not> fits s i work))"
proof -
  from inv have len: "length work = nat (numResources s)" "length finish = nat (numProcesses s)"
    by (simp_all add: scan_inv_def)
  show ?thesis
  proof (cases "\<not> finish ! i \<and> fits s i work")
    case True
    with scan_process_eq [OF wf i len, of progressed] scan_inv_released [OF wf nn tot inv i]
    show ?thesis by auto
  next
    case False
    with scan_process_eq [OF wf i len, of progressed] inv
    show ?thesis by auto
  qed
qed

lemma scan_pass_inv:
  assumes wf: "wf_state s" and nn: "nonneg_allocation s" and tot: "totals_in_range s"
    and inv: "scan_inv s work finish"
    and ord: "set order \<subseteq> {..<nat (numProcesses s)}"
  shows "\<exists>work' finish' progressed'.
           for_each order (scan_process s) (work, finish, progressed)
             = Some (work', finish', progressed')
         \<and> scan_inv s work' finish'
         \<and> (\<not> progressed' \<longrightarrow>
              work' = work \<and> finish' = finish \<and> \<not> progressed
              \<and> (\<forall>i\<in>set order. finish ! i \<or> \<not> fits s i work))"
  using inv ord
proof (induction order arbitrary: work finish progressed)
  case Nil
  then show ?case by simp
next
  case (Cons k ks)
  from Cons.prems(2) have k: "k < nat (numProcesses s)" and ks: "set ks \<subseteq> {..<nat (numProcesses s)}"
    by auto
  from scan_process_inv [OF wf nn tot Cons.prems(1) k, of progressed] obtain w1 f1 p1 where
    step: "scan_process s k (work, finish, progressed) = Some (w1, f1, p1)"
    and inv1: "scan_inv s w1 f1"
    and same1: "\<not> p1 \<longrightarrow> w1 = work \<and> f1 = finish \<and> \<not> progressed
                  \<and> (finish ! k \<or> \<not> fits s k work)"
    by blast
  from Cons.IH [OF inv1 ks, of p1] obtain w2 f2 p2 where
    rest: "for_each ks (scan_process s) (w1, f1, p1) = Some (w2, f2, p2)"
    and inv2: "scan_inv s w2 f2"
    and same2: "\<not> p2 \<longrightarrow> w2 = w1 \<and> f2 = f1 \<and> \<not> p1
                  \<and> (\<forall>i\<in>set ks. f1 ! i \<or> \<not> fits s i w1)"
    by blast
  have "for_each (k # ks) (scan_process s) (work, finish, progressed) = Some (w2, f2, p2)"
    using step rest by simp
  moreover have "\<not> p2 \<longrightarrow> w2 = work \<and> f2 = finish \<and> \<not> progressed
              \<and> (\<forall>i\<in>set (k # ks). finish ! i \<or> \<not> fits s i work)"
    using same1 same2 by auto
  ultimately show ?case using inv2 by blast
qed

lemma safety_loop_inv:
  assumes wf: "wf_state s" and nn: "nonneg_allocation s" and tot: "totals_in_range s"
    and ord: "set order \<subseteq> {..<nat (numProcesses s)}"
    and inv: "scan_inv s work finish"
  shows "\<exists>work' finish' n.
           safety_loop s order work finish passes = Some (work', finish', n)
         \<and> scan_inv s work' finish'
         \<and> (\<forall>i\<in>set order. finish' ! i \<or> \<not> fits s i work')"
  using wf nn tot ord inv
proof (induction s order work finish passes rule: safety_loop.induct)
  case (1 s order work finish passes)
  from scan_pass_inv [OF "1.prems"(1,2,3,5,4), of False] obtain w1 f1 p1 where
    pass: "for_each order (scan_process s) (work, finish, False) = Some (w1, f1, p1)"
    and inv1: "scan_inv s w1 f1"
    and same: "\<not> p1 \<longrightarrow> w1 = work \<and> f1 = finish
                 \<and> (\<forall>i\<in>set order. finish ! i \<or> \<not> fits s i work)"
    by blast
  show ?case
  proof (cases p1)
    case False
    with pass have "safety_loop s order work finish passes = Some (w1, f1, Suc passes)"
      by (simp add: safety_loop.simps [of s order work finish passes])
    with False same inv1 show ?thesis by auto
  next
    case True
    with pass have unf: "safety_loop s order work finish passes
                    = safety_loop s order w1 f1 (Suc passes)"
      by (simp add: safety_loop.simps [of s order work finish passes])
    from "1.IH" [OF pass refl refl _ "1.prems"(1,2,3,4) inv1] True obtain w2 f2 n where
      "safety_loop s order w1 f1 (Suc passes) = Some (w2, f2, n)"
      "scan_inv s w2 f2" "\<forall>i\<in>set order. f2 ! i \<or> \<not> fits s i w2"
      by auto
    with unf show ?thesis by auto
  qed
qed

lemma safety_loop_result:
  assumes wf: "wf_state s" and nn: "nonneg_allocation s" and tot: "totals_in_range s"
    and ord: "set order \<subseteq> {..<nat (numProcesses s)}"
  shows "\<exists>work finish.
           scan_inv s work finish
         \<and> (\<forall>i\<in>set order. finish ! i \<or> \<not> fits s i work)
         \<and> isSafe_scan s order = Some (\<forall>i<nat (numProcesses s). finish ! i)"
proof -
  from safety_loop_inv [OF wf nn tot ord scan_inv_init [OF wf], of 0] obtain w f n where
    res: "safety_loop s order (available s) (replicate (nat (numProcesses s)) False) 0
            = Some (w, f, n)"
    and inv: "scan_inv s w f" and stuck: "\<forall>i\<in>set order. f ! i \<or> \<not> fits s i w"
    by blast
  from inv have "length f = nat (numProcesses s)" by (simp add: scan_inv_def)
  then have "all_finished f [0..<nat (numProcesses s)] = Some (\<forall>i<nat (numProcesses s). f ! i)"
    using all_finished_eq [of "[0..<nat (numProcesses s)]" f] by auto
  moreover from wf have "0 \<le> numProcesses s" by (simp add: wf_state_def)
  ultimately have "isSafe_scan s order = Some (\<forall>i<nat (numProcesses s). f ! i)"
    using res by (simp add: isSafe_scan_def)
  with inv stuck show ?thesis by blast
qed

lemma finished_imp_safe:
  assumes "scan_inv s work finish" and "\<forall>i<nat (numProcesses s). finish ! i"
  shows "safe_state s"
proof -
  from assms(1) obtain dn where "distinct dn"
    "set dn = {i. i < nat (numProcesses s) \<and> finish ! i}"
    "finishes_in_order s (available s) dn"
    by (auto simp: scan_inv_def)
  moreover from assms(2) have "{i. i < nat (numProcesses s) \<and> finish ! i} = {..<nat (numProcesses s)}"
    by auto
  ultimately have "safe_sequence s dn" by (simp add: safe_sequence_def)
  then show ?thesis unfolding safe_state_def ..
qed

text \<open>
  Where no allocation entry is negative, \<open>work\<close> only grows, so at the end of the loop it
  is at least the work vector that a safe sequence has reached before its first process
  that is not marked finished; that process would fit, and the loop would not have ended.
\<close>

lemma safe_imp_finished:
  assumes wf: "wf_state s" and nn: "nonneg_allocation s"
    and inv: "scan_inv s work finish"
    and stuck: "\<forall>i<nat (numProcesses s). finish ! i \<or> \<not> fits s i work"
    and safe: "safe_state s"
  shows "\<forall>i<nat (numProcesses s). finish ! i"
proof (rule ccontr)
  let ?P = "nat (numProcesses s)" and ?R = "nat (numResources s)"
  assume "\<not> (\<forall>i<?P. finish ! i)"
  then obtain i0 where i0: "i0 < ?P" "\<not> finish ! i0" by blast
  from safe obtain order where ord: "distinct order" "set order = {..<?P}"
    "finishes_in_order s (available s) order"
    by (auto simp: safe_state_def safe_sequence_def)
  from i0 ord(2) have "\<exists>x\<in>set order. \<not> finish ! x" by auto
  from split_list_first_prop [OF this]
  obtain ys x zs where split: "order = ys @ x # zs" and x: "\<not> finish ! x"
    and ys: "\<forall>y\<in>set ys. \<not> \<not> finish ! y"
    by blast
  from split ord(2) have xP: "x < ?P" and ysP: "set ys \<subseteq> {..<?P}" by auto
  from split ord(1) have dys: "distinct ys" by simp
  from split ord(3) have fitx: "fits s x (work_after s (available s) ys)"
    by (simp add: finishes_in_order_append)
  from inv obtain dn where dn: "distinct dn" "set dn = {i. i < ?P \<and> finish ! i}"
    "work = work_after s (available s) dn"
    by (auto simp: scan_inv_def)
  have sub: "set ys \<subseteq> set dn" using ys ysP dn(2) by auto
  have le: "work_after s (available s) ys ! j \<le> work ! j" if j: "j < ?R" for j
  proof -
    have "(\<Sum>i\<leftarrow>ys. allocation s ! i ! j) = (\<Sum>i\<in>set ys. allocation s ! i ! j)"
      using dys by (simp add: sum_list_distinct_conv_sum_set)
    also have "\<dots> \<le> (\<Sum>i\<in>set dn. allocation s ! i ! j)"
    proof (rule sum_mono2)
      show "finite (set dn)" by simp
      show "set ys \<subseteq> set dn" by (rule sub)
      fix b assume "b \<in> set dn - set ys"
      with dn(2) have "b < ?P" by auto
      from nonneg_allocation_nth [OF wf nn this j] show "0 \<le> allocation s ! b ! j" .
    qed
    also have "\<dots> = (\<Sum>i\<leftarrow>dn. allocation s ! i ! j)"
      using dn(1) by (simp add: sum_list_distinct_conv_sum_set)
    finally show ?thesis using j dn(3) by (simp add: work_after_nth)
  qed
  have "fits s x work"
    unfolding fits_def
  proof (intro allI impI)
    fix j assume j: "j < ?R"
    from fitx j have "need s ! x ! j \<le> work_after s (available s) ys ! j"
      by (simp add: fits_def)
    with le [OF j] show "need s ! x ! j \<le> work ! j" by simp
  qed
  with stuck xP x show False by blast
qed

lemma isSafe_scan_correct:
  assumes wf: "wf_state s" and nn: "nonneg_allocation s" and tot: "totals_in_range s"
    and ord: "set order = {..<nat (numProcesses s)}"
  shows "isSafe_scan s order = Some (safe_state s)"
proof -
  from ord have sub: "set order \<subseteq> {..<nat (numProcesses s)}" by simp
  from safety_loop_result [OF wf nn tot sub] obtain w f where
    inv: "scan_inv s w f" and stuck: "\<forall>i\<in>set order. f ! i \<or> \<not> fits s i w"
    and res: "isSafe_scan s order = Some (\<forall>i<nat (numProcesses s). f ! i)"
    by blast
  from stuck ord have stuck': "\<forall>i<nat (numProcesses s). f ! i \<or> \<not> fits s i w" by simp
  have "(\<forall>i<nat (numProcesses s). f ! i) \<longleftrightarrow> safe_state s"
    using finished_imp_safe [OF inv] safe_imp_finished [OF wf nn inv stuck'] by blast
  with res show ?thesis by simp
qed

section \<open>main stays within the defined behaviour\<close>

lemma suffix_chain: "suffix xs ys \<Longrightarrow> suffix ys zs \<Longrightarrow> suffix xs zs"
  by (auto simp: suffix_def)

lemma read_int_suffix:
  assumes "read_int st old = (x, st')"
  shows "suffix (buf st') (buf st)"
proof (cases "failed st")
  case True
  with assms show ?thesis by (simp add: read_int_def)
next
  case nf: False
  let ?b = "dropWhile isspace (buf st)"
  show ?thesis
  proof (cases "?b = []")
    case True
    with nf assms have "buf st' = []"
      by (auto simp add: read_int_def simp del: dropWhile_eq_Nil_conv)
    then show ?thesis by simp
  next
    case False
    let ?b1 = "if hd ?b = CHR ''-'' \<or> hd ?b = CHR ''+'' then tl ?b else ?b"
    from nf False have "buf (snd (read_int st old)) = dropWhile isdigit ?b1"
      by (simp add: read_int_def Let_def del: dropWhile_eq_Nil_conv)
    with assms have "buf st' = dropWhile isdigit ?b1" by simp
    then have "suffix (buf st') ?b1" by (simp add: suffix_dropWhile)
    moreover have "suffix ?b1 ?b" by simp
    moreover have "suffix ?b (buf st)" by (rule suffix_dropWhile)
    ultimately show ?thesis by (blast intro: suffix_chain)
  qed
qed

lemma read_vector_Some:
  "\<exists>cin' v. read_vector n cin = Some (cin', v) \<and> length v = nat n
            \<and> suffix (buf cin') (buf cin)"
proof -
  let ?I = "\<lambda>k :: nat. \<lambda>(c, v :: int list). length v = nat n \<and> suffix (buf c) (buf cin)"
  have init: "?I 0 (cin, replicate (nat n) 0)" by simp
  have step: "\<exists>b'. read_cell k b = Some b' \<and> ?I (Suc k) b'" if "k < nat n" "?I k b" for k b
  proof -
    obtain c v where b: "b = (c, v)" by (cases b)
    obtain x c' where r: "read_int c (v ! k) = (x, c')" by (cases "read_int c (v ! k)")
    from that b have len: "length v = nat n" and suf: "suffix (buf c) (buf cin)" by simp_all
    from read_int_suffix [OF r] suf have "suffix (buf c') (buf cin)"
      by (blast intro: suffix_chain)
    moreover from b r len that(1) have "read_cell k b = Some (c', v[k := x])"
      by (simp add: read_cell_def vget_def vset_def)
    ultimately show ?thesis using len by simp
  qed
  from for_each_upt_rule [where P = ?I and n = "nat n" and body = read_cell
      and a = "(cin, replicate (nat n) 0)", OF init step]
  show ?thesis by (auto simp: read_vector_def)
qed

lemma read_rows_Some:
  assumes setRow: "\<And>b pid row. wf_state b \<Longrightarrow>
       \<exists>b'. setRow b pid row = Some b' \<and> wf_state b'
            \<and> numProcesses b' = numProcesses b \<and> numResources b' = numResources b"
    and wf: "wf_state bankers"
  shows "\<exists>cin' bankers'. for_each [0..<n] (read_row setRow r) (cin, bankers) = Some (cin', bankers')
           \<and> wf_state bankers' \<and> numProcesses bankers' = numProcesses bankers
           \<and> numResources bankers' = numResources bankers
           \<and> suffix (buf cin') (buf cin)"
proof -
  let ?I = "\<lambda>k :: nat. \<lambda>(c, b). wf_state b \<and> numProcesses b = numProcesses bankers
           \<and> numResources b = numResources bankers \<and> suffix (buf c) (buf cin)"
  have init: "?I 0 (cin, bankers)" using wf by simp
  have step: "\<exists>a'. read_row setRow r k a = Some a' \<and> ?I (Suc k) a'" if "k < n" "?I k a" for k a
  proof -
    obtain c b where a: "a = (c, b)" by (cases a)
    with that have b: "wf_state b" "numProcesses b = numProcesses bankers"
      "numResources b = numResources bankers" and suf: "suffix (buf c) (buf cin)"
      by simp_all
    from read_vector_Some [of r c] obtain c' row where
      rv: "read_vector r c = Some (c', row)" and suf': "suffix (buf c') (buf c)"
      by blast
    from setRow [OF b(1), of "int k" row] obtain b' where
      b': "setRow b (int k) row = Some b'" "wf_state b'" "numProcesses b' = numProcesses b"
      "numResources b' = numResources b"
      by blast
    from suf suf' have "suffix (buf c') (buf cin)" by (blast intro: suffix_chain)
    moreover from a rv b'(1) have "read_row setRow r k a = Some (c', b')"
      by (simp add: read_row_def)
    ultimately show ?thesis using b b' by simp
  qed
  from for_each_upt_rule [where P = ?I and n = n and body = "read_row setRow r"
      and a = "(cin, bankers)", OF init step]
  show ?thesis by auto
qed

lemma printNeedWithHeader_Some:
  assumes wf: "wf_state s"
  shows "\<exists>out'. printNeedWithHeader s header out = Some out'"
proof -
  have row: "\<exists>out'. print_need_row s i out = Some out'" if i: "i < nat (numProcesses s)" for i out
  proof -
    from wf i have len: "i < length (need s)" "length (need s ! i) = nat (numResources s)"
      by (auto simp: wf_state_def rows_ok_length rows_ok_nth)
    have "\<exists>b'. print_need_cell s i k b = Some b' \<and> True" if "k < nat (numResources s)" for k b
      using that len by (simp add: print_need_cell_def mat_get_Some)
    from for_each_upt_rule [where P = "\<lambda>_ _. True" and n = "nat (numResources s)"
        and body = "print_need_cell s i" and a = out, OF TrueI this]
    show ?thesis by (auto simp: print_need_row_def)
  qed
  then have "\<exists>b'. print_need_row s k b = Some b' \<and> True" if "k < nat (numProcesses s)" for k b
    using that by simp
  from for_each_upt_rule [where P = "\<lambda>_ _. True" and n = "nat (numProcesses s)"
      and body = "print_need_row s" and a = "out @ header @ [newline]", OF TrueI this]
  show ?thesis by (auto simp: printNeedWithHeader_def)
qed

lemma main_request_defined:
  assumes wf: "wf_state bankers" and r: "numResources bankers = r"
  shows "main_request r bankers cin \<noteq> Undefined"
proof -
  obtain got cin1 where tok: "read_token cin = (got, cin1)" by (cases "read_token cin")
  let ?procName = "case got of None \<Rightarrow> [] | Some t \<Rightarrow> t"
  have "\<exists>cin2 request. (if got \<noteq> None then read_vector r cin1
            else Some (cin1, replicate (nat r) 0)) = Some (cin2, request)
          \<and> length request = nat r"
    using read_vector_Some [of r cin1] by auto
  then obtain cin2 request where
    req: "(if got \<noteq> None then read_vector r cin1
            else Some (cin1, replicate (nat r) 0)) = Some (cin2, request)"
    and len: "length request = nat r"
    by blast
  from computeNeed_Some [OF wf] obtain b1 where
    b1: "computeNeed bankers = Some b1" and inv: "computeNeed_inv bankers (nat (numProcesses bankers)) 0 b1"
    by blast
  from wf_computeNeed [OF wf b1] have wf1: "wf_state b1" .
  from inv r have r1: "numResources b1 = r" by (simp add: computeNeed_inv_def)
  from isSafe_Some [OF wf1] obtain safe where safe: "isSafe b1 = Some safe" by blast
  let ?pid = "parse_pid ?procName"
  from canRequest_Some [OF wf1, of request ?pid] len r1 obtain can where
    can: "canRequest b1 ?pid request = Some can"
    by auto
  have granted: "\<exists>b2. applyRequest b1 ?pid request = Some b2 \<and> wf_state b2"
  proof (cases "0 \<le> ?pid \<and> ?pid < numProcesses b1")
    case True
    with applyRequest_Some [OF wf1, of ?pid request] len r1 show ?thesis
      by (auto simp: applyRequest_inv_def)
  next
    case False
    with wf1 show ?thesis by (auto simp: applyRequest_def)
  qed
  then obtain b2 where b2: "applyRequest b1 ?pid request = Some b2" and wf2: "wf_state b2"
    by blast
  from isSafe_Some [OF wf2] obtain safe2 where safe2: "isSafe b2 = Some safe2" by blast
  have printed: "\<And>out. (printNeedWithHeader b2 ''New Need'' out = None) = False"
    using printNeedWithHeader_Some [OF wf2] by simp
  show ?thesis
    unfolding main_request_def tok prod.case Let_def req option.case b1
    using safe can b2 safe2
    by (auto simp: printed split: option.splits bool.splits)
qed

lemma main_Allocation_defined:
  assumes wf: "wf_state bankers" and r: "numResources bankers = r"
  shows "main_Allocation p r bankers cin \<noteq> Undefined"
proof -
  obtain got cin' where tok: "read_token cin = (got, cin')" by (cases "read_token cin")
  from read_rows_Some [of setAllocationRow bankers "nat p" r cin', OF setAllocationRow_wf wf]
  obtain cin'' bankers' where
    rows: "for_each [0..<nat p] (read_row setAllocationRow r) (cin', bankers) = Some (cin'', bankers')"
    and wf': "wf_state bankers'" and r': "numResources bankers' = numResources bankers"
    by blast
  from main_request_defined [OF wf', of r cin''] r r'
  have "main_request r bankers' cin'' \<noteq> Undefined" by simp
  with tok rows show ?thesis
    by (cases got) (simp_all add: main_Allocation_def)
qed

lemma main_Max_defined:
  assumes wf: "wf_state bankers" and r: "numResources bankers = r"
  shows "main_Max p r bankers cin \<noteq> Undefined"
proof -
  obtain got cin' where tok: "read_token cin = (got, cin')" by (cases "read_token cin")
  from read_rows_Some [of setMaxRow bankers "nat p" r cin', OF setMaxRow_wf wf]
  obtain cin'' bankers' where
    rows: "for_each [0..<nat p] (read_row setMaxRow r) (cin', bankers) = Some (cin'', bankers')"
    and wf': "wf_state bankers'" and r': "numResources bankers' = numResources bankers"
    by blast
  from main_Allocation_defined [OF wf', of r p cin''] r r'
  have "main_Allocation p r bankers' cin'' \<noteq> Undefined" by simp
  with tok rows show ?thesis
    by (cases got) (simp_all add: main_Max_def)
qed

lemma main_Available_defined: "main_Available p r cin \<noteq> Undefined"
proof (cases "BankersAlgorithm p r")
  case None
  then show ?thesis by (simp add: main_Available_def)
next
  case (Some bankers)
  then have wf: "wf_state bankers" by (rule wf_BankersAlgorithm)
  from Some have r: "numResources bankers = r"
    by (auto simp: BankersAlgorithm_def split: if_splits)
  obtain got cin' where tok: "read_token cin = (got, cin')" by (cases "read_token cin")
  from read_vector_Some [of r cin'] obtain cin'' av where
    rv: "read_vector r cin' = Some (cin'', av)"
    by blast
  have "numResources (setAvailable bankers av) = r" using r by (simp add: setAvailable_def)
  from main_Max_defined [OF wf_setAvailable [OF wf] this]
  have "main_Max p r (setAvailable bankers av) cin'' \<noteq> Undefined" .
  with Some tok rv show ?thesis
    by (cases got) (simp_all add: main_Available_def)
qed

lemma main_defined: "main input \<noteq> Undefined"
proof -
  have P: "main_P r cin \<noteq> Undefined" for r cin
    using main_Available_defined
    by (auto simp: main_P_def split: prod.splits option.splits)
  then show ?thesis
    by (auto simp: main_def split: prod.splits option.splits)
qed

section \<open>The extractions consume the tokens of the input\<close>


























section \<open>The example states\<close>

lemma classic_loaded_constructed:
  "do { s0 \<leftarrow> BankersAlgorithm 5 3;
        s1 \<leftarrow> Some (setAvailable s0 [3, 3, 2]);
        s2 \<leftarrow> for_each [0..<5]
                (\<lambda>i s. setMaxRow s (int i) ([[7, 5, 3], [3, 2, 2], [9, 0, 2], [2, 2, 2], [4, 3, 3]] ! i))
                s1;
        for_each [0..<5]
          (\<lambda>i s. setAllocationRow s (int i)
                    ([[0, 1, 0], [2, 0, 0], [3, 0, 2], [2, 1, 1], [0, 0, 2]] ! i))
          s2 }
   = Some classic_loaded"
  by code_simp

lemma classic_state_computed: "computeNeed classic_loaded = Some classic_state"
  by code_simp

lemma negative_allocation_state_constructed:
  "do { s0 \<leftarrow> BankersAlgorithm 2 1;
        s1 \<leftarrow> Some (setAvailable s0 [1]);
        s2 \<leftarrow> setMaxRow s1 0 [0];
        s3 \<leftarrow> setMaxRow s2 1 [1];
        s4 \<leftarrow> setAllocationRow s3 0 [- 1];
        s5 \<leftarrow> setAllocationRow s4 1 [0];
        computeNeed s5 }
   = Some negative_allocation_state"
  by code_simp

lemma overflow_work_state_constructed:
  "do { s0 \<leftarrow> BankersAlgorithm 2 1;
        s1 \<leftarrow> Some (setAvailable s0 [2147483647]);
        s2 \<leftarrow> setMaxRow s1 0 [1];
        s3 \<leftarrow> setMaxRow s2 1 [1];
        s4 \<leftarrow> setAllocationRow s3 0 [1];
        s5 \<leftarrow> setAllocationRow s4 1 [0];
        computeNeed s5 }
   = Some overflow_work_state"
  by code_simp

lemma overflow_need_loaded_constructed:
  "do { s0 \<leftarrow> BankersAlgorithm 1 1;
        s1 \<leftarrow> Some (setAvailable s0 [0]);
        s2 \<leftarrow> setMaxRow s1 0 [2147483647];
        setAllocationRow s2 0 [- 1] }
   = Some overflow_need_loaded"
  by code_simp

lemma overflow_request_state_constructed:
  "do { s0 \<leftarrow> BankersAlgorithm 1 1;
        s1 \<leftarrow> Some (setAvailable s0 [5]);
        s2 \<leftarrow> setMaxRow s1 0 [3];
        s3 \<leftarrow> setAllocationRow s2 0 [0];
        computeNeed s3 }
   = Some overflow_request_state"
  by code_simp

lemma wf_classic_loaded: "wf_state classic_loaded"
  by code_simp

lemma wf_classic_state: "wf_state classic_state"
  by code_simp

lemma nonneg_classic_state: "nonneg_allocation classic_state"
  by code_simp

lemma totals_classic_state: "totals_in_range classic_state"
  by code_simp

section \<open>The claims\<close>

subsection \<open>The need matrix\<close>

text \<open>
  Claim C5, as amended. On a well-formed state \<open>computeNeed\<close> returns a state in which, for
  every process \<open>i\<close> in \<open>[0, P)\<close> and every resource \<open>j\<close> in \<open>[0, R)\<close>, the need entry is not
  negative, also where the allocation exceeds the maximum, and is the maximum of 0 and
  \<open>max[i][j] - allocation[i][j]\<close> wherever that difference lies within the range of \<^verbatim>\<open>int\<close>;
  the max and allocation matrices and \<open>available\<close> are as they were.
\<close>

theorem computeNeed_need_in_range:
  assumes "wf_state s"
  shows "\<exists>s'. computeNeed s = Some s'
     \<and> (\<forall>i<nat (numProcesses s). \<forall>j<nat (numResources s).
           0 \<le> need s' ! i ! j
         \<and> (in_int_range (maxm s ! i ! j - allocation s ! i ! j) \<longrightarrow>
               need s' ! i ! j = max 0 (maxm s ! i ! j - allocation s ! i ! j)))
     \<and> maxm s' = maxm s \<and> allocation s' = allocation s \<and> available s' = available s"
proof -
  from computeNeed_Some [OF assms] obtain s' where
    s': "computeNeed s = Some s'" "computeNeed_inv s (nat (numProcesses s)) 0 s'"
    by blast
  from s'(2) have cell: "need s' ! i ! j = max 0 (wrap_int (maxm s ! i ! j - allocation s ! i ! j))"
    if "i < nat (numProcesses s)" "j < nat (numResources s)" for i j
    using that by (simp add: computeNeed_inv_def)
  have "0 \<le> need s' ! i ! j
         \<and> (in_int_range (maxm s ! i ! j - allocation s ! i ! j) \<longrightarrow>
               need s' ! i ! j = max 0 (maxm s ! i ! j - allocation s ! i ! j))"
    if "i < nat (numProcesses s)" "j < nat (numResources s)" for i j
    using cell [OF that] by (simp add: in_int_range_def wrap_int_id)
  moreover from s'(2) have "maxm s' = maxm s \<and> allocation s' = allocation s
      \<and> available s' = available s"
    by (simp add: computeNeed_inv_def)
  ultimately show ?thesis using s'(1) by blast
qed

theorem computeNeed_need_in_range_witness:
  "wf_state classic_loaded
   \<and> in_int_range (maxm classic_loaded ! 1 ! 2 - allocation classic_loaded ! 1 ! 2)
   \<and> computeNeed classic_loaded = Some classic_state
   \<and> (\<exists>s'. computeNeed classic_loaded = Some s'
         \<and> need s' ! 1 ! 2 = max 0 (maxm classic_loaded ! 1 ! 2 - allocation classic_loaded ! 1 ! 2)
         \<and> maxm s' = maxm classic_loaded)"
proof -
  have i: "1 < nat (numProcesses classic_loaded)" and j: "2 < nat (numResources classic_loaded)"
    by (simp_all add: classic_loaded_def)
  have r: "in_int_range (maxm classic_loaded ! 1 ! 2 - allocation classic_loaded ! 1 ! 2)"
    by code_simp
  from computeNeed_need_in_range [OF wf_classic_loaded] i j r
  have "\<exists>s'. computeNeed classic_loaded = Some s'
         \<and> need s' ! 1 ! 2 = max 0 (maxm classic_loaded ! 1 ! 2 - allocation classic_loaded ! 1 ! 2)
         \<and> maxm s' = maxm classic_loaded"
    by blast
  with wf_classic_loaded classic_state_computed r show ?thesis by blast
qed

text \<open>
  Claim C5 as stated, for every entry, fails where the difference is not an \<^verbatim>\<open>int\<close>: in
  \<open>overflow_need_loaded\<close> the maximum is \<open>INT_MAX\<close> and the allocation is \<open>-1\<close>, the
  difference is \<open>INT_MAX + 1\<close>, which no \<^verbatim>\<open>int\<close> holds, and \<open>computeNeed\<close> leaves the need
  entry 0.
\<close>

theorem computeNeed_overflow_counterexample:
  "wf_state overflow_need_loaded
   \<and> computeNeed overflow_need_loaded
       = Some \<lparr> numProcesses = 1, numResources = 1, allocation = [[- 1]],
                maxm = [[2147483647]], need = [[0]], available = [0] \<rparr>
   \<and> max 0 (maxm overflow_need_loaded ! 0 ! 0 - allocation overflow_need_loaded ! 0 ! 0)
       = 2147483648"
  by code_simp

text \<open>
  The run of the program on this input, with a request of nothing for process 0: the need
  entry that the program prints is 0.
\<close>

lemma main_need_overflow:
  "main ''R 1 P 1 Available 0 Max 2147483647 Allocation -1 P0 0''
   = Exit 0 []
       (''Before granting the request of P0, the system is in safe state.'' @ [newline]
        @ ''Simulating granting P0'' @ [quote] @ ''s request.'' @ [newline]
        @ ''New Need'' @ [newline] @ ''0'' @ [newline]
        @ ''P0'' @ [quote] @ ''s request can be granted. The system will be in safe state.''
        @ [newline])"
  by code_simp

subsection \<open>The safety check\<close>

text \<open>
  Claim C1, as amended. For every well-formed state (matrices of the dimensions \<open>P\<close> and
  \<open>R\<close> of the state) whose allocation matrix has no negative entry and in which, for every
  resource, the available entry plus the total of the allocation column is within the range
  of \<^verbatim>\<open>int\<close>, \<open>isSafe\<close> returns, and it returns true exactly when some ordering of all \<open>P\<close>
  processes exists in which each process in turn has its need row component-wise at most
  the accumulated work vector, which starts as \<open>available\<close> and gains the allocation row of
  each process that finishes.
\<close>

theorem isSafe_iff_safe_sequence:
  assumes "wf_state s" and "nonneg_allocation s" and "totals_in_range s"
  shows "isSafe s = Some (\<exists>order. safe_sequence s order)"
  using isSafe_scan_correct [OF assms, of "[0..<nat (numProcesses s)]"]
  by (simp add: isSafe_def safe_state_def atLeast0LessThan)

theorem isSafe_iff_safe_sequence_witness:
  "wf_state classic_state \<and> nonneg_allocation classic_state \<and> totals_in_range classic_state
   \<and> isSafe classic_state = Some True \<and> (\<exists>order. safe_sequence classic_state order)"
proof -
  have run: "isSafe classic_state = Some True" by code_simp
  from isSafe_iff_safe_sequence [OF wf_classic_state nonneg_classic_state totals_classic_state] run
  have "\<exists>order. safe_sequence classic_state order" by simp
  with run wf_classic_state nonneg_classic_state totals_classic_state show ?thesis by simp
qed

text \<open>
  Claim C1 as stated, for every state of matching dimensions, fails in two ways. Where the
  allocation matrix has a negative entry: in \<open>negative_allocation_state\<close> process 0 fits
  first and takes one unit out of \<open>work\<close> when it finishes, after which process 1 never
  fits, so \<open>isSafe\<close> returns false; in the order 1, 0 both processes finish. Where the sum
  of \<open>available\<close> and an allocation column is not an \<^verbatim>\<open>int\<close>: in \<open>overflow_work_state\<close>, which
  has no negative entry, process 0 fits first, the addition of its allocation to \<open>work\<close>
  leaves the range of \<^verbatim>\<open>int\<close> and process 1 no longer fits, so \<open>isSafe\<close> returns false; in
  the order 1, 0 both processes finish.
\<close>

theorem isSafe_false_on_safe_state_counterexample:
  "wf_state negative_allocation_state
   \<and> isSafe negative_allocation_state = Some False
   \<and> safe_sequence negative_allocation_state [1, 0]
   \<and> wf_state overflow_work_state
   \<and> nonneg_allocation overflow_work_state
   \<and> isSafe overflow_work_state = Some False
   \<and> safe_sequence overflow_work_state [1, 0]"
  by code_simp

text \<open>
  Claim C4, as amended. For every well-formed state whose allocation matrix has no negative
  entry and in which, for every resource, the available entry plus the total of the
  allocation column is within the range of \<^verbatim>\<open>int\<close>, and for every permutation \<open>order\<close> of
  the process indices, the safety check that scans the processes in that order returns the
  same boolean as \<open>isSafe\<close>, which scans them in ascending order; both return.
\<close>

theorem isSafe_scan_order_independent:
  assumes "wf_state s" and "nonneg_allocation s" and "totals_in_range s"
    and "distinct order" and "set order = {..<nat (numProcesses s)}"
  shows "isSafe_scan s order = isSafe s \<and> (\<exists>b. isSafe s = Some b)"
  using isSafe_scan_correct [OF assms(1,2,3,5)]
    isSafe_scan_correct [OF assms(1,2,3), of "[0..<nat (numProcesses s)]"]
  by (simp add: isSafe_def atLeast0LessThan)

theorem isSafe_scan_order_independent_witness:
  "wf_state classic_state \<and> nonneg_allocation classic_state \<and> totals_in_range classic_state
   \<and> distinct [4, 2, 0, 3, 1 :: nat] \<and> set [4, 2, 0, 3, 1] = {..<nat (numProcesses classic_state)}
   \<and> isSafe_scan classic_state [4, 2, 0, 3, 1] = isSafe classic_state
   \<and> isSafe_scan classic_state [4, 2, 0, 3, 1] = Some True"
proof -
  have d: "distinct [4, 2, 0, 3, 1 :: nat]" by simp
  have p: "set [4, 2, 0, 3, 1] = {..<nat (numProcesses classic_state)}"
    by (auto simp: classic_state_def)
  have run: "isSafe_scan classic_state [4, 2, 0, 3, 1] = Some True" by code_simp
  from isSafe_scan_order_independent
    [OF wf_classic_state nonneg_classic_state totals_classic_state d p] run
  show ?thesis using wf_classic_state nonneg_classic_state totals_classic_state d p by simp
qed

text \<open>
  Claim C4 as stated, for every state, fails in the same two states: in
  \<open>negative_allocation_state\<close>, and in \<open>overflow_work_state\<close>, which has no negative entry,
  the ascending scan returns false and the scan in the order 1, 0 returns true.
\<close>

theorem isSafe_scan_order_counterexample:
  "wf_state negative_allocation_state
   \<and> distinct [1, 0 :: nat]
   \<and> set [1, 0] = {..<nat (numProcesses negative_allocation_state)}
   \<and> isSafe negative_allocation_state = Some False
   \<and> isSafe_scan negative_allocation_state [1, 0] = Some True
   \<and> wf_state overflow_work_state
   \<and> nonneg_allocation overflow_work_state
   \<and> set [1, 0] = {..<nat (numProcesses overflow_work_state)}
   \<and> isSafe overflow_work_state = Some False
   \<and> isSafe_scan overflow_work_state [1, 0] = Some True"
proof -
  have "set [1, 0] = {..<nat (numProcesses negative_allocation_state)}"
    by (auto simp: negative_allocation_state_def)
  moreover have "set [1, 0] = {..<nat (numProcesses overflow_work_state)}"
    by (auto simp: overflow_work_state_def)
  moreover have "wf_state negative_allocation_state" by code_simp
  moreover have "isSafe negative_allocation_state = Some False" by code_simp
  moreover have "isSafe_scan negative_allocation_state [1, 0] = Some True" by code_simp
  moreover have "wf_state overflow_work_state" by code_simp
  moreover have "nonneg_allocation overflow_work_state" by code_simp
  moreover have "isSafe overflow_work_state = Some False" by code_simp
  moreover have "isSafe_scan overflow_work_state [1, 0] = Some True" by code_simp
  ultimately show ?thesis by simp
qed

text \<open>
  The runs of the program that build the two states and report them unsafe, although the
  processes finish in the order 1, 0.
\<close>

lemma main_negative_allocation:
  "main ''R 1 P 2 Available 1 Max 0 1 Allocation -1 0 P0 0''
   = Exit 0 [] (''The current system is in unsafe state.'' @ [newline])"
  by code_simp

lemma main_work_overflow:
  "main ''R 1 P 2 Available 2147483647 Max 1 1 Allocation 1 0 P0 0''
   = Exit 0 [] (''The current system is in unsafe state.'' @ [newline])"
  by code_simp

text \<open>
  Claim C8. On every well-formed state \<open>isSafe\<close> returns a result, and so does
  \<open>canRequest\<close> for every process id and every request vector of \<open>R\<close> entries. The
  \<^verbatim>\<open>while\<close> loop of \<open>isSafe\<close> runs at most \<open>P + 1\<close> scans: a scan that makes progress
  marks a process finished that was not, and a scan without progress is the last one.
  (Termination on every input is the termination proof of \<open>safety_loop\<close>, whose measure
  is the number of unfinished processes.)
\<close>

theorem isSafe_canRequest_return:
  assumes "wf_state s" and "length req = nat (numResources s)"
  shows "(\<exists>work finish passes.
            safety_loop s [0..<nat (numProcesses s)] (available s)
              (replicate (nat (numProcesses s)) False) 0 = Some (work, finish, passes)
            \<and> passes \<le> nat (numProcesses s) + 1)
       \<and> (\<exists>b. isSafe s = Some b)
       \<and> (\<exists>b. canRequest s pid req = Some b)"
proof -
  have ord: "set [0..<nat (numProcesses s)] \<subseteq> {..<nat (numProcesses s)}" by auto
  from safety_loop_returns [OF assms(1) ord]
  have "\<exists>work finish passes.
            safety_loop s [0..<nat (numProcesses s)] (available s)
              (replicate (nat (numProcesses s)) False) 0 = Some (work, finish, passes)
            \<and> passes \<le> nat (numProcesses s) + 1"
    by blast
  moreover from isSafe_scan_returns [OF assms(1) ord] have "\<exists>b. isSafe s = Some b"
    by (simp add: isSafe_def)
  moreover from canRequest_Some [OF assms] have "\<exists>b. canRequest s pid req = Some b"
    by blast
  ultimately show ?thesis by blast
qed

theorem isSafe_canRequest_return_witness:
  "wf_state classic_state \<and> length [1, 0, 2 :: int] = nat (numResources classic_state)
   \<and> (\<exists>work finish passes.
            safety_loop classic_state [0..<nat (numProcesses classic_state)]
              (available classic_state)
              (replicate (nat (numProcesses classic_state)) False) 0 = Some (work, finish, passes)
            \<and> passes \<le> nat (numProcesses classic_state) + 1)
   \<and> (\<exists>b. isSafe classic_state = Some b)
   \<and> (\<exists>b. canRequest classic_state 1 [1, 0, 2] = Some b)"
proof -
  have len: "length [1, 0, 2 :: int] = nat (numResources classic_state)"
    by (simp add: classic_state_def)
  from isSafe_canRequest_return [OF wf_classic_state len, of 1] wf_classic_state len
  show ?thesis by blast
qed

subsection \<open>Requests\<close>

text \<open>
  Claim C2. On a well-formed state and a request vector of \<open>R\<close> entries, \<open>canRequest\<close>
  returns true if and only if the process id lies in \<open>[0, P)\<close> and every entry of the
  request is at most the entry of the need row of the process and at most the entry of
  \<open>available\<close>; so it returns false when the process id is out of range. The method is
  \<^verbatim>\<open>const\<close>: it takes the state and returns a boolean only, no state.
\<close>

theorem canRequest_iff:
  assumes "wf_state s" and "length req = nat (numResources s)"
  shows "canRequest s pid req
         = Some (0 \<le> pid \<and> pid < numProcesses s
                 \<and> (\<forall>j<nat (numResources s).
                       req ! j \<le> need s ! nat pid ! j \<and> req ! j \<le> available s ! j))"
  using canRequest_value [OF assms] .

theorem canRequest_iff_witness:
  "wf_state classic_state \<and> length [1, 0, 2 :: int] = nat (numResources classic_state)
   \<and> canRequest classic_state 1 [1, 0, 2] = Some True
   \<and> [1, 0, 2] ! 2 \<le> need classic_state ! nat 1 ! 2
   \<and> [1, 0, 2] ! 2 \<le> available classic_state ! 2"
proof -
  have len: "length [1, 0, 2 :: int] = nat (numResources classic_state)"
    by (simp add: classic_state_def)
  have run: "canRequest classic_state 1 [1, 0, 2] = Some True" by code_simp
  have j: "2 < nat (numResources classic_state)" by (simp add: classic_state_def)
  from canRequest_iff [OF wf_classic_state len, of 1] run j
  have "[1, 0, 2] ! 2 \<le> need classic_state ! nat 1 ! 2
        \<and> [1, 0, 2] ! 2 \<le> available classic_state ! 2"
    by auto
  with wf_classic_state len run show ?thesis by simp
qed

text \<open>
  Claim C3, as amended. When the process id lies in \<open>[0, P)\<close> and \<open>canRequest\<close> holds,
  \<open>applyRequest\<close> returns a state in which, for every resource \<open>j\<close> for which the three
  results \<open>allocation[pid][j] + req[j]\<close>, \<open>available[j] - req[j]\<close> and
  \<open>need[pid][j] - req[j]\<close> lie within the range of \<^verbatim>\<open>int\<close>, the request is added to the
  allocation entry of the process and taken from the available entry and from the need
  entry of the process, and the sum of the allocation column and the available entry is
  the same before and after. The other rows of the allocation and need matrices and the
  whole max matrix stay as they were.
\<close>

theorem applyRequest_effect_in_range:
  assumes wf: "wf_state s" and pid: "0 \<le> pid" "pid < numProcesses s"
    and can: "canRequest s pid req = Some True"
  shows "\<exists>s'. applyRequest s pid req = Some s'
     \<and> (\<forall>j<nat (numResources s).
           in_int_range (allocation s ! nat pid ! j + req ! j)
           \<and> in_int_range (available s ! j - req ! j)
           \<and> in_int_range (need s ! nat pid ! j - req ! j) \<longrightarrow>
           allocation s' ! nat pid ! j = allocation s ! nat pid ! j + req ! j
         \<and> available s' ! j = available s ! j - req ! j
         \<and> need s' ! nat pid ! j = need s ! nat pid ! j - req ! j
         \<and> (\<Sum>i<nat (numProcesses s). allocation s' ! i ! j) + available s' ! j
             = (\<Sum>i<nat (numProcesses s). allocation s ! i ! j) + available s ! j)
     \<and> (\<forall>i<nat (numProcesses s). i \<noteq> nat pid \<longrightarrow>
           allocation s' ! i = allocation s ! i \<and> need s' ! i = need s ! i)
     \<and> maxm s' = maxm s"
proof -
  let ?P = "nat (numProcesses s)" and ?R = "nat (numResources s)" and ?p = "nat pid"
  from can pid have loop: "canRequest_loop s ?p req [0..<?R] = Some True"
    by (simp add: canRequest_def)
  have le: "\<And>j. j < ?R \<Longrightarrow> j < length req \<and> req ! j \<le> need s ! ?p ! j"
    using canRequest_loop_True [OF loop] by simp
  have req: "?R \<le> length req"
  proof (cases "?R")
    case 0
    then show ?thesis by simp
  next
    case (Suc r)
    with le [of r] show ?thesis by simp
  qed
  from applyRequest_Some [OF wf pid req] obtain s' where
    s': "applyRequest s pid req = Some s'" and inv: "applyRequest_inv s ?p req ?R s'"
    by blast
  from pid have p: "?p < ?P" by simp
  have rows: "\<And>i. i < ?P \<Longrightarrow> i \<noteq> ?p \<Longrightarrow>
           allocation s' ! i = allocation s ! i \<and> need s' ! i = need s ! i"
    using inv by (simp add: applyRequest_inv_def)
  have cells: "allocation s' ! ?p ! j = allocation s ! ?p ! j + req ! j
         \<and> available s' ! j = available s ! j - req ! j
         \<and> need s' ! ?p ! j = need s ! ?p ! j - req ! j
         \<and> (\<Sum>i<?P. allocation s' ! i ! j) + available s' ! j
             = (\<Sum>i<?P. allocation s ! i ! j) + available s ! j"
    if j: "j < ?R"
      and range: "in_int_range (allocation s ! ?p ! j + req ! j)"
        "in_int_range (available s ! j - req ! j)" "in_int_range (need s ! ?p ! j - req ! j)"
    for j
  proof -
    from inv j have w: "allocation s' ! ?p ! j = wrap_int (allocation s ! ?p ! j + req ! j)"
      "available s' ! j = wrap_int (available s ! j - req ! j)"
      "need s' ! ?p ! j = max 0 (wrap_int (need s ! ?p ! j - req ! j))"
      by (simp_all add: applyRequest_inv_def)
    from w range le [OF j] have c: "allocation s' ! ?p ! j = allocation s ! ?p ! j + req ! j"
      "available s' ! j = available s ! j - req ! j"
      "need s' ! ?p ! j = need s ! ?p ! j - req ! j"
      by (simp_all add: in_int_range_def wrap_int_id)
    have "(\<Sum>i<?P. allocation s' ! i ! j)
          = (\<Sum>i<?P. allocation s ! i ! j) + (allocation s' ! ?p ! j - allocation s ! ?p ! j)"
      using rows by (intro sum_one_row_changed [OF p]) simp
    with c show ?thesis by simp
  qed
  from inv have "maxm s' = maxm s" by (simp add: applyRequest_inv_def)
  moreover from cells have "\<forall>j<?R.
           in_int_range (allocation s ! ?p ! j + req ! j)
           \<and> in_int_range (available s ! j - req ! j)
           \<and> in_int_range (need s ! ?p ! j - req ! j) \<longrightarrow>
           allocation s' ! ?p ! j = allocation s ! ?p ! j + req ! j
         \<and> available s' ! j = available s ! j - req ! j
         \<and> need s' ! ?p ! j = need s ! ?p ! j - req ! j
         \<and> (\<Sum>i<?P. allocation s' ! i ! j) + available s' ! j
             = (\<Sum>i<?P. allocation s ! i ! j) + available s ! j"
    by blast
  moreover from rows have "\<forall>i<?P. i \<noteq> ?p \<longrightarrow>
           allocation s' ! i = allocation s ! i \<and> need s' ! i = need s ! i"
    by blast
  ultimately show ?thesis using s' by blast
qed

theorem applyRequest_effect_in_range_witness:
  "wf_state classic_state \<and> (0::int) \<le> 1 \<and> 1 < numProcesses classic_state
   \<and> canRequest classic_state 1 [1, 0, 2] = Some True
   \<and> in_int_range (allocation classic_state ! nat 1 ! 2 + [1, 0, 2] ! 2)
   \<and> in_int_range (available classic_state ! 2 - [1, 0, 2] ! 2)
   \<and> in_int_range (need classic_state ! nat 1 ! 2 - [1, 0, 2] ! 2)
   \<and> applyRequest classic_state 1 [1, 0, 2]
       = Some (classic_state \<lparr> allocation := [[0, 1, 0], [3, 0, 2], [3, 0, 2], [2, 1, 1], [0, 0, 2]],
                               need := [[7, 4, 3], [0, 2, 0], [6, 0, 0], [0, 1, 1], [4, 3, 1]],
                               available := [2, 3, 0] \<rparr>)
   \<and> (\<exists>s'. applyRequest classic_state 1 [1, 0, 2] = Some s'
         \<and> allocation s' ! nat 1 ! 2 = allocation classic_state ! nat 1 ! 2 + [1, 0, 2] ! 2
         \<and> available s' ! 2 = available classic_state ! 2 - [1, 0, 2] ! 2
         \<and> maxm s' = maxm classic_state)"
proof -
  have p: "(0::int) \<le> 1" "1 < numProcesses classic_state" by (simp_all add: classic_state_def)
  have can: "canRequest classic_state 1 [1, 0, 2] = Some True" by code_simp
  have r1: "in_int_range (allocation classic_state ! nat 1 ! 2 + [1, 0, 2] ! 2)" by code_simp
  have r2: "in_int_range (available classic_state ! 2 - [1, 0, 2] ! 2)" by code_simp
  have r3: "in_int_range (need classic_state ! nat 1 ! 2 - [1, 0, 2] ! 2)" by code_simp
  have run: "applyRequest classic_state 1 [1, 0, 2]
       = Some (classic_state \<lparr> allocation := [[0, 1, 0], [3, 0, 2], [3, 0, 2], [2, 1, 1], [0, 0, 2]],
                               need := [[7, 4, 3], [0, 2, 0], [6, 0, 0], [0, 1, 1], [4, 3, 1]],
                               available := [2, 3, 0] \<rparr>)"
    by code_simp
  have j: "2 < nat (numResources classic_state)" by (simp add: classic_state_def)
  from applyRequest_effect_in_range [OF wf_classic_state p can] j r1 r2 r3
  have "\<exists>s'. applyRequest classic_state 1 [1, 0, 2] = Some s'
         \<and> allocation s' ! nat 1 ! 2 = allocation classic_state ! nat 1 ! 2 + [1, 0, 2] ! 2
         \<and> available s' ! 2 = available classic_state ! 2 - [1, 0, 2] ! 2
         \<and> maxm s' = maxm classic_state"
    by blast
  with wf_classic_state p can r1 r2 r3 run show ?thesis by blast
qed

text \<open>
  Claim C3 as stated, for every request that \<open>canRequest\<close> accepts, fails where a result is
  not an \<^verbatim>\<open>int\<close>. \<open>canRequest\<close> puts no lower bound on the request: in
  \<open>overflow_request_state\<close> it accepts the request \<open>INT_MIN\<close> of process 0, for which
  \<open>need - req\<close> is \<open>INT_MAX + 4\<close> and \<open>available - req\<close> is \<open>INT_MAX + 6\<close>. \<open>applyRequest\<close>
  leaves the need entry 0 and a negative available entry, and the sum of the allocation
  column and the available entry is not what it was.
\<close>

theorem applyRequest_overflow_counterexample:
  "wf_state overflow_request_state
   \<and> canRequest overflow_request_state 0 [- 2147483648] = Some True
   \<and> applyRequest overflow_request_state 0 [- 2147483648]
       = Some \<lparr> numProcesses = 1, numResources = 1, allocation = [[- 2147483648]],
                maxm = [[3]], need = [[0]], available = [- 2147483643] \<rparr>
   \<and> need overflow_request_state ! 0 ! 0 - [- 2147483648] ! 0 = 2147483651
   \<and> available overflow_request_state ! 0 - [- 2147483648] ! 0 = 2147483653"
  by code_simp

text \<open>The run of the program on this state and request.\<close>

lemma main_request_overflow:
  "main ''R 1 P 1 Available 5 Max 3 Allocation 0 P0 -2147483648''
   = Exit 0 []
       (''Before granting the request of P0, the system is in safe state.'' @ [newline]
        @ ''Simulating granting P0'' @ [quote] @ ''s request.'' @ [newline]
        @ ''New Need'' @ [newline] @ ''0'' @ [newline]
        @ ''P0'' @ [quote]
        @ ''s request cannot be granted. The system will be in unsafe state.'' @ [newline])"
  by code_simp

subsection \<open>Degenerate dimensions and rejected arguments\<close>

text \<open>
  Claim C10. In a state with no process (\<open>numProcesses = 0\<close>, any number of resources),
  \<open>isSafe\<close> returns true and \<open>canRequest\<close> returns false for every process id and every
  request vector.
\<close>

theorem no_process_isSafe_canRequest:
  "numProcesses s = 0 \<Longrightarrow> isSafe s = Some True \<and> canRequest s pid req = Some False"
  by (auto simp: isSafe_def isSafe_scan_def canRequest_def)

theorem no_process_isSafe_canRequest_witness:
  "BankersAlgorithm 0 3 = Some \<lparr> numProcesses = 0, numResources = 3, allocation = [], maxm = [],
      need = [], available = [0, 0, 0] \<rparr>
   \<and> isSafe \<lparr> numProcesses = 0, numResources = 3, allocation = [], maxm = [],
      need = [], available = [0, 0, 0] \<rparr> = Some True
   \<and> canRequest \<lparr> numProcesses = 0, numResources = 3, allocation = [], maxm = [],
      need = [], available = [0, 0, 0] \<rparr> 0 [0, 0, 0] = Some False"
  using no_process_isSafe_canRequest [of "\<lparr> numProcesses = 0, numResources = 3, allocation = [],
      maxm = [], need = [], available = [0, 0, 0] \<rparr>" 0 "[0, 0, 0]"]
  by (simp add: BankersAlgorithm_def numeral_3_eq_3)

text \<open>
  Claim C9. A setter called with arguments it rejects leaves the state as it was:
  \<open>setMaxRow\<close> and \<open>setAllocationRow\<close> when the process id is outside \<open>[0, P)\<close> or the row
  does not have \<open>R\<close> entries, \<open>setAvailable\<close> when the vector does not have \<open>R\<close> entries,
  and \<open>applyRequest\<close> when the process id is outside \<open>[0, P)\<close>.
\<close>

theorem rejected_arguments_noop:
  "(pid < 0 \<or> pid \<ge> numProcesses s \<or> int (length row) \<noteq> numResources s \<longrightarrow>
      setMaxRow s pid row = Some s \<and> setAllocationRow s pid row = Some s)
   \<and> (int (length av) \<noteq> numResources s \<longrightarrow> setAvailable s av = s)
   \<and> (pid < 0 \<or> pid \<ge> numProcesses s \<longrightarrow> applyRequest s pid req = Some s)"
  by (auto simp: setMaxRow_def setAllocationRow_def setAvailable_def applyRequest_def)

theorem rejected_arguments_noop_witness:
  "setMaxRow \<lparr> numProcesses = 1, numResources = 1, allocation = [[2]], maxm = [[5]],
      need = [[3]], available = [4] \<rparr> 1 [7, 7]
     = Some \<lparr> numProcesses = 1, numResources = 1, allocation = [[2]], maxm = [[5]],
      need = [[3]], available = [4] \<rparr>
   \<and> setAllocationRow \<lparr> numProcesses = 1, numResources = 1, allocation = [[2]], maxm = [[5]],
      need = [[3]], available = [4] \<rparr> 1 [7, 7]
     = Some \<lparr> numProcesses = 1, numResources = 1, allocation = [[2]], maxm = [[5]],
      need = [[3]], available = [4] \<rparr>
   \<and> setAvailable \<lparr> numProcesses = 1, numResources = 1, allocation = [[2]], maxm = [[5]],
      need = [[3]], available = [4] \<rparr> [7, 7]
     = \<lparr> numProcesses = 1, numResources = 1, allocation = [[2]], maxm = [[5]],
      need = [[3]], available = [4] \<rparr>
   \<and> applyRequest \<lparr> numProcesses = 1, numResources = 1, allocation = [[2]], maxm = [[5]],
      need = [[3]], available = [4] \<rparr> 1 [1]
     = Some \<lparr> numProcesses = 1, numResources = 1, allocation = [[2]], maxm = [[5]],
      need = [[3]], available = [4] \<rparr>"
  using rejected_arguments_noop [of 1 "\<lparr> numProcesses = 1, numResources = 1,
      allocation = [[2]], maxm = [[5]], need = [[3]], available = [4] \<rparr>" "[7, 7]" "[7, 7]" "[1]"]
  by simp

subsection \<open>The input\<close>

text \<open>
  Claim C6. The claim says that the checks of the keywords \<^verbatim>\<open>R\<close> and \<^verbatim>\<open>P\<close> each take
  the lowercase form as well, and that any other token is a fatal error. The check of
  \<^verbatim>\<open>R\<close> does (\<open>main_lowercase_r\<close> below), and so does the check of the first letter of
  the request line; any other token ends the run with a message and status 1
  (\<open>main_other_token_for_R\<close>, \<open>main_other_token_for_P\<close>). But the check of \<^verbatim>\<open>P\<close>
  compares with \<^verbatim>\<open>"P"\<close> only: on the textbook input with \<^verbatim>\<open>p\<close> for \<^verbatim>\<open>P\<close> the program
  writes \<^verbatim>\<open>Expected 'P' token\<close> and exits with status 1.
\<close>

theorem main_lowercase_p_rejected:
  "main (''R 3 p 5 Available 3 3 2 Max 7 5 3 3 2 2 9 0 2 2 2 2 4 3 3 ''
         @ ''Allocation 0 1 0 2 0 0 3 0 2 2 1 1 0 0 2 P1 1 0 2'')
   = Exit 1 (''Expected 'P' token'' @ [newline]) []"
  by code_simp

lemma main_lowercase_r: "main (CHR ''r'' # rest) = main (CHR ''R'' # rest)"
  by (simp add: main_def read_token_def isspace_def Let_def)

lemma main_uppercase_P_accepted:
  "main (''R 3 P 5 Available 3 3 2 Max 7 5 3 3 2 2 9 0 2 2 2 2 4 3 3 ''
         @ ''Allocation 0 1 0 2 0 0 3 0 2 2 1 1 0 0 2 P1 1 0 2'')
   = Exit 0 []
       (''Before granting the request of P1, the system is in safe state.'' @ [newline]
        @ ''Simulating granting P1'' @ [quote] @ ''s request.'' @ [newline]
        @ ''New Need'' @ [newline]
        @ ''7 4 3'' @ [newline] @ ''0 2 0'' @ [newline] @ ''6 0 0'' @ [newline]
        @ ''0 1 1'' @ [newline] @ ''4 3 1'' @ [newline]
        @ ''P1'' @ [quote] @ ''s request can be granted. The system will be in safe state.''
        @ [newline])"
  by code_simp

lemma main_other_token_for_R:
  assumes "read_token \<lparr>buf = input, failed = False\<rparr> = (Some token, cin)"
    and "token \<noteq> ''R''" and "token \<noteq> ''r''"
  shows "main input = Exit 1 (''Expected 'R' at start'' @ [newline]) []"
  using assms by (simp add: main_def)

lemma main_other_token_for_P:
  assumes "read_token cin = (Some token, cin')" and "token \<noteq> ''P''"
  shows "main_P r cin = Exit 1 (''Expected 'P' token'' @ [newline]) []"
  using assms by (simp add: main_P_def)




end
